theory Spec2Isabelle
  imports Complex_Main "HOL-Library.Word"
begin

section \<open>Data\<close>

text \<open>
  A decoded single-channel 8-bit picture, as \<^verbatim>\<open>cv2.imread(path, 0)\<close> hands it to the
  program: the matrix dimensions and the pixels in row-major order.
\<close>

record image =
  rows :: nat
  cols :: nat
  data :: "8 word list"

text \<open>
  The directory tree under \<^verbatim>\<open>voters/\<close>, seen through \<^verbatim>\<open>cv2.imread(path, 0)\<close>: for
  every path the grey picture that reading it yields, \<open>None\<close> where the file is missing
  or cannot be decoded.
\<close>

type_synonym file_store = "string \<Rightarrow> image option"

text \<open>
  One row of table \<^verbatim>\<open>users\<close> (columns id, user_id, face_path, eye_path, has_voted) and
  one row of table \<^verbatim>\<open>votes\<close> (columns id, voter_id, candidate). The two path columns
  are nullable: \<^verbatim>\<open>register\<close> stores whatever \<^verbatim>\<open>capture_image\<close> returned.
\<close>

record user_row =
  row_id :: nat
  user_id :: string
  face_path :: "string option"
  eye_path :: "string option"
  has_voted :: int

record vote_row =
  vote_id :: nat
  voter_id :: string
  candidate :: string

text \<open>
  The persistent state: the two tables of \<^verbatim>\<open>voting.db\<close>, the picture files, and
  whether a connection that \<^verbatim>\<open>add_user\<close> left open holds the write lock of the
  database file.
\<close>

record state =
  users :: "user_row list"
  votes :: "vote_row list"
  files :: file_store
  locked :: bool

text \<open>
  What sqlite raises when a statement that writes cannot get the lock:
  \<^verbatim>\<open>OperationalError: database is locked\<close>. No route catches it.
\<close>

datatype error = OperationalError

section \<open>Database functions\<close>

text \<open>\<^verbatim>\<open>create_db\<close> on a new database file: both tables exist and are empty.\<close>

definition create_db :: "file_store \<Rightarrow> state" where
  "create_db fs = \<lparr>users = [], votes = [], files = fs, locked = False\<rparr>"

text \<open>
  \<^verbatim>\<open>add_user\<close>. The INSERT needs the write lock; while another connection holds it,
  sqlite raises OperationalError. The INSERT violates \<^verbatim>\<open>user_id TEXT UNIQUE\<close> when a
  row with this \<^verbatim>\<open>user_id\<close> exists: sqlite raises IntegrityError and the function
  returns False from the handler, without \<^verbatim>\<open>conn.close()\<close>. The transaction that the
  INSERT opened is then still open on that connection and keeps the write lock, until the
  interpreter disposes of the connection (\<open>collect\<close> below). Otherwise the row is
  appended with the column default \<^verbatim>\<open>has_voted = 0\<close>, committed, and the connection is
  closed. Rows are never deleted, so AUTOINCREMENT numbers them 1, 2, ...
\<close>

definition add_user ::
  "state \<Rightarrow> string \<Rightarrow> string option \<Rightarrow> string option \<Rightarrow> error + bool \<times> state" where
  "add_user s uid fpath epath =
     (if locked s then Inl OperationalError
      else if \<exists>r \<in> set (users s). user_id r = uid then Inr (False, s\<lparr>locked := True\<rparr>)
      else Inr (True, s\<lparr>users := users s @
              [\<lparr>row_id = Suc (length (users s)), user_id = uid,
                face_path = fpath, eye_path = epath, has_voted = 0\<rparr>]\<rparr>))"

text \<open>
  The garbage collector of the interpreter disposes of a connection that was left open:
  its transaction is rolled back and the lock is free again. When this happens is not in
  the hands of the program.
\<close>

definition collect :: "state \<Rightarrow> state" where
  "collect s = s\<lparr>locked := False\<rparr>"

text \<open>\<^verbatim>\<open>get_user\<close>: \<^verbatim>\<open>fetchone()\<close> of the SELECT, the first matching row or None.\<close>

definition get_user :: "state \<Rightarrow> string \<Rightarrow> user_row option" where
  "get_user s uid = find (\<lambda>r. user_id r = uid) (users s)"

text \<open>
  \<^verbatim>\<open>mark_voted\<close>: an UPDATE without any condition on the old value; it returns nothing.
  As a statement that writes it needs the lock, also when no row matches.
\<close>

definition mark_voted :: "state \<Rightarrow> string \<Rightarrow> error + state" where
  "mark_voted s uid =
     (if locked s then Inl OperationalError
      else Inr (s\<lparr>users :=
                  map (\<lambda>r. if user_id r = uid then r\<lparr>has_voted := 1\<rparr> else r) (users s)\<rparr>))"

text \<open>\<^verbatim>\<open>has_already_voted\<close>: \<^verbatim>\<open>user[4] == 1 if user else False\<close>.\<close>

definition has_already_voted :: "state \<Rightarrow> string \<Rightarrow> bool" where
  "has_already_voted s uid =
     (case get_user s uid of Some user \<Rightarrow> has_voted user = 1 | None \<Rightarrow> False)"

text \<open>\<^verbatim>\<open>save_vote\<close>: an INSERT into a table that carries no constraint on \<^verbatim>\<open>voter_id\<close>.\<close>

definition save_vote :: "state \<Rightarrow> string \<Rightarrow> string \<Rightarrow> error + state" where
  "save_vote s uid cand =
     (if locked s then Inl OperationalError
      else Inr (s\<lparr>votes := votes s @
                  [\<lparr>vote_id = Suc (length (votes s)), voter_id = uid, candidate = cand\<rparr>]\<rparr>))"

text \<open>
  \<^verbatim>\<open>get_user\<close> and \<^verbatim>\<open>has_already_voted\<close> only read, which the lock of another
  connection does not hinder.
\<close>

text \<open>The ballots stored for one voter.\<close>

definition ballots :: "state \<Rightarrow> string \<Rightarrow> vote_row list" where
  "ballots s uid = filter (\<lambda>v. voter_id v = uid) (votes s)"

section \<open>Image capture\<close>

text \<open>
  What the camera and the two Haar cascades deliver in one iteration of the loop of
  \<^verbatim>\<open>capture_image\<close>: the flag of \<^verbatim>\<open>cap.read()\<close>, the regions found by
  \<^verbatim>\<open>face_cascade\<close> and by \<^verbatim>\<open>eye_cascade\<close> (each as the grey picture that reading the
  written file back yields) and the key code of \<^verbatim>\<open>cv2.waitKey(1)\<close>.
\<close>

record frame =
  ret :: bool
  faces :: "image list"
  eyes :: "image list"
  key :: int

text \<open>
  \<^verbatim>\<open>capture_image\<close>, run on the frames the camera delivers during the call. An unread
  frame is skipped; the first detected region is written to
  \<^verbatim>\<open>voters/faces/<user_id>.jpg\<close> (or \<^verbatim>\<open>voters/eyes/<user_id>.jpg\<close>) and its path is
  returned; without a detection, ESC (key 27) leaves the loop and the function returns
  None. The result \<open>None\<close> of the model says that the loop has not returned on the
  frames given: the source loops for as long as nothing is detected and ESC is not pressed.
\<close>

fun capture_image ::
  "string \<Rightarrow> string \<Rightarrow> frame list \<Rightarrow> file_store \<Rightarrow> (string option \<times> file_store) option" where
  "capture_image uid img_type [] fs = None"
| "capture_image uid img_type (f # cam) fs =
     (if \<not> ret f then capture_image uid img_type cam fs
      else if img_type = ''face'' \<and> faces f \<noteq> [] then
        Some (Some (''voters/faces/'' @ uid @ ''.jpg''),
              fs(''voters/faces/'' @ uid @ ''.jpg'' \<mapsto> hd (faces f)))
      else if img_type = ''eye'' \<and> eyes f \<noteq> [] then
        Some (Some (''voters/eyes/'' @ uid @ ''.jpg''),
              fs(''voters/eyes/'' @ uid @ ''.jpg'' \<mapsto> hd (eyes f)))
      else if key f = 27 then Some (None, fs)
      else capture_image uid img_type cam fs)"

section \<open>Image matching\<close>

text \<open>
  \<^verbatim>\<open>cv2.imread(path, 0)\<close>. A \<^verbatim>\<open>None\<close> file name is taken to name no file, as the
  empty name does, so that the call yields None: the case \<^verbatim>\<open>compare_images\<close> tests for.
\<close>

definition imread :: "file_store \<Rightarrow> string option \<Rightarrow> image option" where
  "imread fs path = (case path of None \<Rightarrow> None | Some p \<Rightarrow> fs p)"

text \<open>
  \<^verbatim>\<open>cv2.resize(img, (200, 200))\<close>. The result always has 200 rows of 200 pixels. A
  picture that has this size already is copied as it is; the interpolation applied to any
  other size is the parameter \<open>interp\<close>, of which only the first 40000 pixels count
  (\<open>fit\<close>).
\<close>

definition fit :: "8 word list \<Rightarrow> 8 word list" where
  "fit xs = take 40000 (xs @ replicate 40000 0)"

definition resize :: "(image \<Rightarrow> image) \<Rightarrow> image \<Rightarrow> image" where
  "resize interp img =
     \<lparr>rows = 200, cols = 200,
      data = fit (data (if rows img = 200 \<and> cols img = 200 then img else interp img))\<rparr>"

text \<open>
  \<^verbatim>\<open>cv2.calcHist([img], [0], None, [256], [0, 256])\<close>: for each intensity 0 .. 255 the
  number of pixels that have it.
\<close>

definition calcHist :: "image \<Rightarrow> nat list" where
  "calcHist img = map (\<lambda>v. count_list (data img) (word_of_nat v)) [0..<256]"

subsection \<open>Double precision\<close>

text \<open>
  OpenCV compares histograms in C doubles, and Python compares the score with the double
  that the literal \<^verbatim>\<open>0.8\<close> denotes. The bins that \<^verbatim>\<open>calcHist\<close> returns are counts
  held in single precision, exact up to \<open>2\<^sup>2\<^sup>4\<close>, and \<^verbatim>\<open>compareHist\<close> widens each of
  them to a double before it is used. A double is modelled as the real number it stands for;
  \<open>rd\<close> rounds a real to the nearest number with a significand of 53 bits, a tie to the
  one with an even significand: \<open>expo x\<close> is the binary exponent of \<open>x\<close>, \<open>ulp x\<close> the
  distance of neighbouring doubles at \<open>x\<close>. Each arithmetic operation is the exact
  operation followed by \<open>rd\<close>. The range of the exponent is not limited: overflow and
  subnormal numbers are out of reach for histograms of 40000 pixels.
\<close>

definition expo :: "real \<Rightarrow> int" where
  "expo x = \<lfloor>log 2 \<bar>x\<bar>\<rfloor>"

definition ulp :: "real \<Rightarrow> real" where
  "ulp x = 2 powr (real_of_int (expo x) - 52)"

definition nearest_even :: "real \<Rightarrow> int" where
  "nearest_even t =
     (let f = \<lfloor>t\<rfloor>
      in if t - of_int f < 1 / 2 then f
         else if 1 / 2 < t - of_int f then f + 1
         else if even f then f else f + 1)"

definition rd :: "real \<Rightarrow> real" where
  "rd x = (if x = 0 then 0 else of_int (nearest_even (x / ulp x)) * ulp x)"

definition add_d :: "real \<Rightarrow> real \<Rightarrow> real" where
  "add_d x y = rd (x + y)"

definition sub_d :: "real \<Rightarrow> real \<Rightarrow> real" where
  "sub_d x y = rd (x - y)"

definition mul_d :: "real \<Rightarrow> real \<Rightarrow> real" where
  "mul_d x y = rd (x * y)"

definition div_d :: "real \<Rightarrow> real \<Rightarrow> real" where
  "div_d x y = rd (x / y)"

definition sqrt_d :: "real \<Rightarrow> real" where
  "sqrt_d x = rd (sqrt x)"

definition DBL_EPSILON :: real where
  "DBL_EPSILON = 1 / 2 ^ 52"

subsection \<open>Comparison\<close>

text \<open>
  \<^verbatim>\<open>cv2.compareHist(hist1, hist2, cv2.HISTCMP_CORREL)\<close>: the five sums that OpenCV
  accumulates bin by bin, and its closing formula
  \<^verbatim>\<open>num = s12 - s1*s2*scale\<close>,
  \<^verbatim>\<open>denom2 = (s11 - s1*s1*scale)*(s22 - s2*s2*scale)\<close>,
  \<^verbatim>\<open>abs(denom2) > DBL_EPSILON ? num/sqrt(denom2) : 1.\<close>, with \<^verbatim>\<open>scale = 1./total\<close>.
\<close>

definition compareHist :: "nat list \<Rightarrow> nat list \<Rightarrow> real" where
  "compareHist h1 h2 =
     (let s1 = foldl (\<lambda>s a. add_d s (real a)) 0 h1;
          s2 = foldl (\<lambda>s b. add_d s (real b)) 0 h2;
          s11 = foldl (\<lambda>s a. add_d s (mul_d (real a) (real a))) 0 h1;
          s12 = foldl (\<lambda>s (a, b). add_d s (mul_d (real a) (real b))) 0 (zip h1 h2);
          s22 = foldl (\<lambda>s b. add_d s (mul_d (real b) (real b))) 0 h2;
          scale = div_d 1 (real (length h1));
          num = sub_d s12 (mul_d (mul_d s1 s2) scale);
          denom2 = mul_d (sub_d s11 (mul_d (mul_d s1 s1) scale))
                         (sub_d s22 (mul_d (mul_d s2 s2) scale))
      in if \<bar>denom2\<bar> > DBL_EPSILON then div_d num (sqrt_d denom2) else 1)"

text \<open>
  The histograms that reach \<^verbatim>\<open>compareHist\<close> in this program: 256 bins that count the
  pixels of a picture of 200 by 200.
\<close>

definition small :: "nat list \<Rightarrow> bool" where
  "small h \<longleftrightarrow> length h = 256 \<and> sum_list h \<le> 40000"

text \<open>The score that \<^verbatim>\<open>compare_images\<close> computes from two decoded pictures.\<close>

definition score :: "(image \<Rightarrow> image) \<Rightarrow> image \<Rightarrow> image \<Rightarrow> real" where
  "score interp img1 img2 =
     compareHist (calcHist (resize interp img1)) (calcHist (resize interp img2))"

text \<open>
  \<^verbatim>\<open>compare_images\<close>. The threshold of \<^verbatim>\<open>score > 0.8\<close> is the double nearest to 0.8.
\<close>

definition compare_images :: "(image \<Rightarrow> image) \<Rightarrow> file_store \<Rightarrow> string option \<Rightarrow> string option \<Rightarrow> bool" where
  "compare_images interp fs img1_path img2_path =
     (case imread fs img1_path of
        None \<Rightarrow> False
      | Some img1 \<Rightarrow>
          (case imread fs img2_path of
             None \<Rightarrow> False
           | Some img2 \<Rightarrow> score interp img1 img2 > rd 0.8))"

section \<open>Routes\<close>

text \<open>The texts the two POST routes answer with.\<close>

datatype response =
    Registered            \<comment> \<open>\<^verbatim>\<open>User <id> registered successfully!\<close>\<close>
  | User_exists           \<comment> \<open>\<^verbatim>\<open>User already exists!\<close>\<close>
  | Already_voted         \<comment> \<open>\<^verbatim>\<open>You have already voted!\<close>\<close>
  | User_not_found        \<comment> \<open>\<^verbatim>\<open>User not found!\<close>\<close>
  | Vote_registered       \<comment> \<open>\<^verbatim>\<open>Vote registered successfully!\<close>\<close>
  | Verification_failed   \<comment> \<open>\<^verbatim>\<open>Verification failed! Vote not registered.\<close>\<close>
  | Server_error          \<comment> \<open>status 500: an exception left the route\<close>

text \<open>
  POST \<^verbatim>\<open>/register\<close>, run alone on the frames \<open>cam1\<close> (first capture) and \<open>cam2\<close>
  (second capture). \<open>None\<close>: a capture has not returned.
\<close>

definition register :: "string \<Rightarrow> frame list \<Rightarrow> frame list \<Rightarrow> state \<Rightarrow> (response \<times> state) option" where
  "register uid cam1 cam2 s =
     (case capture_image uid ''face'' cam1 (files s) of
        None \<Rightarrow> None
      | Some (fpath, fs1) \<Rightarrow>
          (case capture_image uid ''eye'' cam2 fs1 of
             None \<Rightarrow> None
           | Some (epath, fs2) \<Rightarrow>
               (case add_user (s\<lparr>files := fs2\<rparr>) uid fpath epath of
                  Inl e \<Rightarrow> Some (Server_error, s\<lparr>files := fs2\<rparr>)
                | Inr (True, s') \<Rightarrow> Some (Registered, s')
                | Inr (False, s') \<Rightarrow> Some (User_exists, s'))))"

text \<open>POST \<^verbatim>\<open>/vote\<close>, run alone.\<close>

definition vote ::
  "(image \<Rightarrow> image) \<Rightarrow> string \<Rightarrow> string \<Rightarrow> frame list \<Rightarrow> frame list \<Rightarrow> state \<Rightarrow> (response \<times> state) option" where
  "vote interp uid cand cam1 cam2 s =
     (if has_already_voted s uid then Some (Already_voted, s)
      else
        (case capture_image uid ''face'' cam1 (files s) of
           None \<Rightarrow> None
         | Some (new_face, fs1) \<Rightarrow>
             (case capture_image uid ''eye'' cam2 fs1 of
                None \<Rightarrow> None
              | Some (new_eye, fs2) \<Rightarrow>
                  (case get_user (s\<lparr>files := fs2\<rparr>) uid of
                     None \<Rightarrow> Some (User_not_found, s\<lparr>files := fs2\<rparr>)
                   | Some user \<Rightarrow>
                       if compare_images interp fs2 new_face (face_path user)
                          \<and> compare_images interp fs2 new_eye (eye_path user)
                       then
                         (case save_vote (s\<lparr>files := fs2\<rparr>) uid cand of
                            Inl e \<Rightarrow> Some (Server_error, s\<lparr>files := fs2\<rparr>)
                          | Inr s1 \<Rightarrow>
                              (case mark_voted s1 uid of
                                 Inl e \<Rightarrow> Some (Server_error, s1)
                               | Inr s2 \<Rightarrow> Some (Vote_registered, s2)))
                       else Some (Verification_failed, s\<lparr>files := fs2\<rparr>)))))"

text \<open>
  Requests served one after the other, with the moments at which the garbage collector
  disposes of a connection left open; \<open>None\<close> when a request does not return.
\<close>

datatype request =
    Register string "frame list" "frame list"
  | Vote string string "frame list" "frame list"

datatype event = Request request | Collect

fun serve :: "(image \<Rightarrow> image) \<Rightarrow> event list \<Rightarrow> state \<Rightarrow> (response list \<times> state) option" where
  "serve interp [] s = Some ([], s)"
| "serve interp (Collect # evs) s = serve interp evs (collect s)"
| "serve interp (Request (Register uid cam1 cam2) # evs) s =
     (case register uid cam1 cam2 s of
        None \<Rightarrow> None
      | Some (r, s') \<Rightarrow>
          (case serve interp evs s' of None \<Rightarrow> None | Some (rs, s'') \<Rightarrow> Some (r # rs, s'')))"
| "serve interp (Request (Vote uid cand cam1 cam2) # evs) s =
     (case vote interp uid cand cam1 cam2 s of
        None \<Rightarrow> None
      | Some (r, s') \<Rightarrow>
          (case serve interp evs s' of None \<Rightarrow> None | Some (rs, s'') \<Rightarrow> Some (r # rs, s'')))"

section \<open>Requests served in parallel\<close>

text \<open>
  The development server answers every request in a thread of its own. Each database
  function opens its own connection and commits before it returns, so a request touches
  the shared state in separate steps, and steps of other requests can fall between them.
  A thread is the point a request has reached, with the local variables it holds there.
  The garbage collector of the interpreter is one more thread, which can move at any time.
\<close>

datatype thread =
    V_has_already_voted string string "frame list" "frame list"
  | V_capture_face string string "frame list" "frame list"
  | V_capture_eye string string "string option" "frame list"
  | V_get_user string string "string option" "string option"
  | V_compare_face string string "string option" "string option" user_row
  | V_compare_eye string string "string option" user_row
  | V_save_vote string string
  | V_mark_voted string
  | R_capture_face string "frame list" "frame list"
  | R_capture_eye string "string option" "frame list"
  | R_add_user string "string option" "string option"
  | Finished response
  | Blocked
  | Collector

fun start :: "request \<Rightarrow> thread" where
  "start (Register uid cam1 cam2) = R_capture_face uid cam1 cam2"
| "start (Vote uid cand cam1 cam2) = V_has_already_voted uid cand cam1 cam2"

text \<open>One step of one thread: the next statement of its route, on the shared state.\<close>

fun step :: "(image \<Rightarrow> image) \<Rightarrow> thread \<Rightarrow> state \<Rightarrow> thread \<times> state" where
  "step interp (V_has_already_voted uid cand cam1 cam2) s =
     (if has_already_voted s uid then (Finished Already_voted, s)
      else (V_capture_face uid cand cam1 cam2, s))"
| "step interp (V_capture_face uid cand cam1 cam2) s =
     (case capture_image uid ''face'' cam1 (files s) of
        None \<Rightarrow> (Blocked, s)
      | Some (new_face, fs1) \<Rightarrow> (V_capture_eye uid cand new_face cam2, s\<lparr>files := fs1\<rparr>))"
| "step interp (V_capture_eye uid cand new_face cam2) s =
     (case capture_image uid ''eye'' cam2 (files s) of
        None \<Rightarrow> (Blocked, s)
      | Some (new_eye, fs2) \<Rightarrow> (V_get_user uid cand new_face new_eye, s\<lparr>files := fs2\<rparr>))"
| "step interp (V_get_user uid cand new_face new_eye) s =
     (case get_user s uid of
        None \<Rightarrow> (Finished User_not_found, s)
      | Some user \<Rightarrow> (V_compare_face uid cand new_face new_eye user, s))"
| "step interp (V_compare_face uid cand new_face new_eye user) s =
     (if compare_images interp (files s) new_face (face_path user)
      then (V_compare_eye uid cand new_eye user, s)
      else (Finished Verification_failed, s))"
| "step interp (V_compare_eye uid cand new_eye user) s =
     (if compare_images interp (files s) new_eye (eye_path user)
      then (V_save_vote uid cand, s)
      else (Finished Verification_failed, s))"
| "step interp (V_save_vote uid cand) s =
     (case save_vote s uid cand of
        Inl e \<Rightarrow> (Finished Server_error, s)
      | Inr s' \<Rightarrow> (V_mark_voted uid, s'))"
| "step interp (V_mark_voted uid) s =
     (case mark_voted s uid of
        Inl e \<Rightarrow> (Finished Server_error, s)
      | Inr s' \<Rightarrow> (Finished Vote_registered, s'))"
| "step interp (R_capture_face uid cam1 cam2) s =
     (case capture_image uid ''face'' cam1 (files s) of
        None \<Rightarrow> (Blocked, s)
      | Some (fpath, fs1) \<Rightarrow> (R_capture_eye uid fpath cam2, s\<lparr>files := fs1\<rparr>))"
| "step interp (R_capture_eye uid fpath cam2) s =
     (case capture_image uid ''eye'' cam2 (files s) of
        None \<Rightarrow> (Blocked, s)
      | Some (epath, fs2) \<Rightarrow> (R_add_user uid fpath epath, s\<lparr>files := fs2\<rparr>))"
| "step interp (R_add_user uid fpath epath) s =
     (case add_user s uid fpath epath of
        Inl e \<Rightarrow> (Finished Server_error, s)
      | Inr (True, s') \<Rightarrow> (Finished Registered, s')
      | Inr (False, s') \<Rightarrow> (Finished User_exists, s'))"
| "step interp (Finished r) s = (Finished r, s)"
| "step interp Blocked s = (Blocked, s)"
| "step interp Collector s = (Collector, collect s)"

text \<open>
  A schedule names, step by step, the thread that moves next. \<open>run\<close> plays a schedule
  on the threads and the shared state.
\<close>

fun run :: "(image \<Rightarrow> image) \<Rightarrow> nat list \<Rightarrow> thread list \<times> state \<Rightarrow> thread list \<times> state" where
  "run interp [] c = c"
| "run interp (i # sched) (ts, s) =
     (if i < length ts
      then (case step interp (ts ! i) s of (t', s') \<Rightarrow> run interp sched (ts[i := t'], s'))
      else run interp sched (ts, s))"

section \<open>Pictures used in the examples\<close>

text \<open>
  A 200 by 200 picture with a prescribed histogram: \<open>h v\<close> pixels of intensity \<open>v\<close>,
  the intensities in ascending order.
\<close>

definition spread :: "(nat \<Rightarrow> nat) \<Rightarrow> image" where
  "spread h = \<lparr>rows = 200, cols = 200,
               data = concat (map (\<lambda>v. replicate (h v) (word_of_nat v)) [0..<256])\<rparr>"

text \<open>
  Two histograms of 40000 pixels. The pictures built from them differ in 20 pixels
  (intensity 0 in the one, 1 in the other).
\<close>

definition hist_x :: "nat \<Rightarrow> nat" where
  "hist_x v = (if v = 0 then 196 else if v = 1 then 176 else if v = 2 then 160 else 156)"

definition hist_y :: "nat \<Rightarrow> nat" where
  "hist_y v = (if v = 0 then 176 else if v = 1 then 196 else if v = 2 then 160 else 156)"

text \<open>A picture whose upper half is black and lower half white, and the same upside down.\<close>

definition half_dark :: image where
  "half_dark = \<lparr>rows = 200, cols = 200, data = replicate 20000 0 @ replicate 20000 255\<rparr>"

definition half_dark_flipped :: image where
  "half_dark_flipped = \<lparr>rows = 200, cols = 200, data = replicate 20000 255 @ replicate 20000 0\<rparr>"

text \<open>A picture of one middle grey, unlike both.\<close>

definition grey :: image where
  "grey = \<lparr>rows = 200, cols = 200, data = replicate 40000 128\<rparr>"

section \<open>Scenes used in the examples\<close>

text \<open>A frame in which a face is found, one in which an eye is found, and one with ESC pressed.\<close>

definition face_shot :: frame where
  "face_shot = \<lparr>ret = True, faces = [half_dark], eyes = [], key = - 1\<rparr>"

definition eye_shot :: frame where
  "eye_shot = \<lparr>ret = True, faces = [], eyes = [half_dark_flipped], key = - 1\<rparr>"

definition escape :: frame where
  "escape = \<lparr>ret = True, faces = [], eyes = [], key = 27\<rparr>"

text \<open>Frames in which the face and the eye of somebody else are found.\<close>

definition stranger_face :: frame where
  "stranger_face = \<lparr>ret = True, faces = [grey], eyes = [], key = - 1\<rparr>"

definition stranger_eye :: frame where
  "stranger_eye = \<lparr>ret = True, faces = [], eyes = [grey], key = - 1\<rparr>"

text \<open>The state after \<open>v1\<close> has registered on a new database, and after \<open>v1\<close> has voted for A.\<close>

definition enrolled_v1 :: state where
  "enrolled_v1 =
     \<lparr>users = [\<lparr>row_id = 1, user_id = ''v1'', face_path = Some ''voters/faces/v1.jpg'',
                eye_path = Some ''voters/eyes/v1.jpg'', has_voted = 0\<rparr>],
      votes = [],
      files = (\<lambda>p. None)(''voters/faces/v1.jpg'' \<mapsto> half_dark,
                           ''voters/eyes/v1.jpg'' \<mapsto> half_dark_flipped),
      locked = False\<rparr>"

definition voted_v1 :: state where
  "voted_v1 =
     \<lparr>users = [\<lparr>row_id = 1, user_id = ''v1'', face_path = Some ''voters/faces/v1.jpg'',
                eye_path = Some ''voters/eyes/v1.jpg'', has_voted = 1\<rparr>],
      votes = [\<lparr>vote_id = 1, voter_id = ''v1'', candidate = ''A''\<rparr>],
      files = (\<lambda>p. None)(''voters/faces/v1.jpg'' \<mapsto> half_dark,
                           ''voters/eyes/v1.jpg'' \<mapsto> half_dark_flipped),
      locked = False\<rparr>"

section \<open>Invariants\<close>

text \<open>
  No two ballots carry the same \<^verbatim>\<open>voter_id\<close>, and every voter with a ballot is marked
  as having voted.
\<close>

definition consistent :: "state \<Rightarrow> bool" where
  "consistent s \<longleftrightarrow>
     distinct (map voter_id (votes s)) \<and> (\<forall>v \<in> set (votes s). has_already_voted s (voter_id v))"

text \<open>Every voter marked as having voted has a ballot.\<close>

definition voted_has_ballot :: "state \<Rightarrow> bool" where
  "voted_has_ballot s \<longleftrightarrow> (\<forall>r \<in> set (users s). has_voted r = 1 \<longrightarrow> ballots s (user_id r) \<noteq> [])"




section \<open>A race of two vote requests\<close>

text \<open>
  Three requests in parallel: \<open>v1\<close> registers, and two vote requests for \<open>v1\<close> follow,
  for candidates A and B. \<open>ballot_only_v1\<close> is the state between the two writes of the
  first vote, \<open>voted_twice_v1\<close> the state after both votes were stored.
\<close>

definition race :: "request list" where
  "race = [Register ''v1'' [face_shot] [eye_shot],
           Vote ''v1'' ''A'' [face_shot] [eye_shot],
           Vote ''v1'' ''B'' [face_shot] [eye_shot]]"


definition voted_twice_v1 :: state where
  "voted_twice_v1 =
     voted_v1\<lparr>votes := [\<lparr>vote_id = 1, voter_id = ''v1'', candidate = ''A''\<rparr>,
                        \<lparr>vote_id = 2, voter_id = ''v1'', candidate = ''B''\<rparr>]\<rparr>"

section \<open>A vote request and a second registration\<close>



section \<open>Rounding to double precision\<close>

lemma ulp_pos [simp]: "0 < ulp x"
  by (simp add: ulp_def)

lemma ulp_nonneg [simp]: "0 \<le> ulp x"
  by (simp add: ulp_def)

lemma expo_bounds:
  assumes "x \<noteq> 0"
  shows "2 powr (real_of_int (expo x)) \<le> \<bar>x\<bar>" "\<bar>x\<bar> < 2 powr (real_of_int (expo x) + 1)"
proof -
  have "\<lfloor>log 2 \<bar>x\<bar>\<rfloor> = expo x" by (simp add: expo_def)
  then have "2 powr (real_of_int (expo x)) \<le> \<bar>x\<bar> \<and> \<bar>x\<bar> < 2 powr (real_of_int (expo x + 1))"
    using assms by (subst (asm) floor_log_eq_powr_iff) auto
  then show "2 powr (real_of_int (expo x)) \<le> \<bar>x\<bar>" "\<bar>x\<bar> < 2 powr (real_of_int (expo x) + 1)"
    by (simp_all add: add.commute)
qed

lemma powr_shift:
  "2 powr (r + 52) = 2 ^ 52 * 2 powr r" "2 powr (r + 53) = 2 ^ 53 * 2 powr (r::real)"
  by (simp_all add: powr_add)

lemma ulp_bounds:
  assumes "x \<noteq> 0"
  shows "2 ^ 52 * ulp x \<le> \<bar>x\<bar>" "\<bar>x\<bar> < 2 ^ 53 * ulp x"
proof -
  have "real_of_int (expo x) = (real_of_int (expo x) - 52) + 52"
       "real_of_int (expo x) + 1 = (real_of_int (expo x) - 52) + 53"
    by linarith+
  then have "2 powr (real_of_int (expo x)) = 2 powr ((real_of_int (expo x) - 52) + 52)"
       "2 powr (real_of_int (expo x) + 1) = 2 powr ((real_of_int (expo x) - 52) + 53)"
    by presburger+
  then have "2 powr (real_of_int (expo x)) = 2 ^ 52 * ulp x"
       "2 powr (real_of_int (expo x) + 1) = 2 ^ 53 * ulp x"
    by (simp_all only: powr_shift ulp_def)
  with expo_bounds [OF assms] show "2 ^ 52 * ulp x \<le> \<bar>x\<bar>" "\<bar>x\<bar> < 2 ^ 53 * ulp x"
    by simp_all
qed

lemma ulp_unique:
  assumes "2 ^ 52 * 2 powr (real_of_int j) \<le> \<bar>x\<bar>" and "\<bar>x\<bar> < 2 ^ 53 * 2 powr (real_of_int j)"
  shows "ulp x = 2 powr (real_of_int j)"
proof -
  have "0 < (2::real) ^ 52 * 2 powr (real_of_int j)" by simp
  with assms(1) have x: "0 < \<bar>x\<bar>" by linarith
  have "real_of_int (j + 52) = real_of_int j + 52" "real_of_int (j + 52 + 1) = real_of_int j + 53"
    by simp_all
  then have "2 powr (real_of_int (j + 52)) = 2 ^ 52 * 2 powr (real_of_int j)"
       "2 powr (real_of_int (j + 52 + 1)) = 2 ^ 53 * 2 powr (real_of_int j)"
    by (simp_all only: powr_shift)
  with assms have "2 powr (real_of_int (j + 52)) \<le> \<bar>x\<bar> \<and> \<bar>x\<bar> < 2 powr (real_of_int (j + 52 + 1))"
    by simp
  with x have "\<lfloor>log 2 \<bar>x\<bar>\<rfloor> = j + 52"
    by (subst floor_log_eq_powr_iff) auto
  then show ?thesis
    by (simp add: ulp_def expo_def)
qed

lemma nearest_even_int [simp]: "nearest_even (of_int m) = m"
  by (simp add: nearest_even_def)

lemma nearest_even_close:
  assumes "\<bar>t - of_int m\<bar> < 1 / 2"
  shows "nearest_even t = m"
proof -
  consider "of_int m \<le> t" | "t < of_int m" by linarith
  then show ?thesis
  proof cases
    case 1
    with assms have "\<lfloor>t\<rfloor> = m" by (intro floor_unique) (auto simp: abs_if split: if_splits)
    with assms 1 show ?thesis by (auto simp: nearest_even_def abs_if split: if_splits)
  next
    case 2
    with assms have "\<lfloor>t\<rfloor> = m - 1" by (intro floor_unique) (auto simp: abs_if split: if_splits)
    with assms 2 show ?thesis by (auto simp: nearest_even_def Let_def abs_if split: if_splits)
  qed
qed

lemma nearest_even_error: "\<bar>of_int (nearest_even t) - t\<bar> \<le> 1 / 2"
proof -
  have "of_int \<lfloor>t\<rfloor> \<le> t" "t < of_int \<lfloor>t\<rfloor> + 1" by linarith+
  then show ?thesis
    by (auto simp: nearest_even_def Let_def abs_if; linarith)
qed

lemma nearest_even_ge: "of_int m \<le> t \<Longrightarrow> m \<le> nearest_even t"
proof -
  assume "of_int m \<le> t"
  then have "m \<le> \<lfloor>t\<rfloor>" by (simp add: le_floor_iff)
  then show ?thesis by (auto simp: nearest_even_def Let_def)
qed

lemma nearest_even_le: "t \<le> of_int m \<Longrightarrow> nearest_even t \<le> m"
proof -
  assume a: "t \<le> of_int m"
  show ?thesis
  proof (cases "t = of_int m")
    case True
    then show ?thesis by simp
  next
    case False
    with a have "t < of_int m" by simp
    then have "\<lfloor>t\<rfloor> < m" by (simp add: floor_less_iff)
    then show ?thesis by (auto simp: nearest_even_def Let_def)
  qed
qed

lemma abs_scaled:
  fixes u :: real
  assumes "0 < u"
  shows "\<bar>n * u - x\<bar> = \<bar>n - x / u\<bar> * u"
proof -
  have "n * u - x = (n - x / u) * u" using assms by (simp add: left_diff_distrib)
  then have "\<bar>n * u - x\<bar> = \<bar>n - x / u\<bar> * \<bar>u\<bar>" by (simp only: abs_mult)
  with assms show ?thesis by simp
qed

text \<open>The error of rounding is at most half a unit in the last place, and the sign is kept.\<close>

lemma rd_error: "\<bar>rd x - x\<bar> \<le> ulp x / 2"
proof (cases "x = 0")
  case True
  then show ?thesis by (simp add: rd_def)
next
  case False
  have "\<bar>rd x - x\<bar> = \<bar>of_int (nearest_even (x / ulp x)) - x / ulp x\<bar> * ulp x"
    using False by (simp add: rd_def abs_scaled)
  also have "\<dots> \<le> 1 / 2 * ulp x"
    by (intro mult_right_mono nearest_even_error) simp
  finally show ?thesis by simp
qed

lemma rd_lower:
  assumes "0 < x"
  shows "2 ^ 52 * ulp x \<le> rd x"
proof -
  have "2 ^ 52 * ulp x \<le> x" using ulp_bounds(1) [of x] assms by simp
  then have "of_int (2 ^ 52) \<le> x / ulp x" by (simp add: pos_le_divide_eq)
  then have "2 ^ 52 \<le> nearest_even (x / ulp x)" by (rule nearest_even_ge)
  then have "real_of_int (2 ^ 52) \<le> of_int (nearest_even (x / ulp x))"
    by (simp only: of_int_le_iff)
  then have "(2::real) ^ 52 \<le> of_int (nearest_even (x / ulp x))"
    by simp
  then show ?thesis using assms by (simp add: rd_def)
qed

lemma rd_pos: "0 < x \<Longrightarrow> 0 < rd x"
proof -
  assume "0 < x"
  then have "2 ^ 52 * ulp x \<le> rd x" by (rule rd_lower)
  moreover have "0 < (2::real) ^ 52 * ulp x" by simp
  ultimately show ?thesis by linarith
qed

lemma rd_neg:
  assumes "x < 0"
  shows "rd x < 0"
proof -
  have "\<bar>x\<bar> = - x" using assms by simp
  with ulp_bounds(1) [of x] assms have "x \<le> - (2 ^ 52 * ulp x)" by simp
  then have "x / ulp x \<le> of_int (- (2 ^ 52))" by (simp add: pos_divide_le_eq)
  then have "nearest_even (x / ulp x) \<le> - (2 ^ 52)" by (rule nearest_even_le)
  then have "nearest_even (x / ulp x) < 0" by simp
  then have "real_of_int (nearest_even (x / ulp x)) < 0" by simp
  then show ?thesis using assms by (simp add: rd_def mult_neg_pos)
qed

lemma rd_nearest:
  assumes "2 ^ 52 * 2 powr (real_of_int j) \<le> y" and "y < 2 ^ 53 * 2 powr (real_of_int j)"
    and "\<bar>y - of_int m * 2 powr (real_of_int j)\<bar> < 2 powr (real_of_int j) / 2"
  shows "rd y = of_int m * 2 powr (real_of_int j)"
proof -
  let ?q = "2 powr (real_of_int j)"
  have q: "0 < ?q" by simp
  have "0 < (2::real) ^ 52 * ?q" by simp
  with assms(1) have y: "0 < y" by linarith
  then have u: "ulp y = ?q" using assms(1,2) by (intro ulp_unique) simp_all
  have "y / ?q - of_int m = (y - of_int m * ?q) / ?q"
    by (simp add: diff_divide_distrib)
  then have "\<bar>y / ?q - of_int m\<bar> = \<bar>y - of_int m * ?q\<bar> / ?q"
    by (simp only: abs_divide) simp
  also have "\<dots> < 1 / 2"
    using assms(3) q by (simp add: pos_divide_less_eq)
  finally have "nearest_even (y / ?q) = m" by (rule nearest_even_close)
  with y u show ?thesis by (simp add: rd_def)
qed

text \<open>A number \<open>m * 2\<^sup>k\<close> with \<open>\<bar>m\<bar> < 2\<^sup>5\<^sup>3\<close> is a double: rounding leaves it as it is.\<close>

lemma rd_dyadic:
  assumes "\<bar>m\<bar> < 2 ^ 53"
  shows "rd (of_int m * 2 powr (real_of_int k)) = of_int m * 2 powr (real_of_int k)"
proof (cases "m = 0")
  case True
  then show ?thesis by (simp add: rd_def)
next
  case False
  let ?x = "real_of_int m * 2 powr (real_of_int k)"
  let ?e = "expo ?x"
  have x: "?x \<noteq> 0" using False by simp
  have "\<bar>?x\<bar> = real_of_int \<bar>m\<bar> * 2 powr (real_of_int k)"
    by (simp add: abs_mult)
  also have "\<dots> < 2 ^ 53 * 2 powr (real_of_int k)"
  proof -
    have "real_of_int \<bar>m\<bar> < real_of_int (2 ^ 53)" using assms by (simp only: of_int_less_iff)
    then show ?thesis by simp
  qed
  finally have "2 ^ 52 * ulp ?x < 2 ^ 53 * 2 powr (real_of_int k)"
    using ulp_bounds(1) [OF x] by linarith
  then have "ulp ?x < 2 * 2 powr (real_of_int k)" by simp
  then have "2 powr (real_of_int ?e - 52) < 2 powr (real_of_int k + 1)"
    by (simp add: ulp_def powr_add)
  then have "real_of_int ?e - 52 < real_of_int k + 1" by simp
  then have le: "?e - 52 \<le> k" by linarith
  define n where "n = nat (k - (?e - 52))"
  have eq: "real_of_int k = real n + (real_of_int ?e - 52)"
    using le by (simp add: n_def)
  have "2 powr (real_of_int k) = 2 powr (real n + (real_of_int ?e - 52))"
    using arg_cong [OF eq, of "\<lambda>r. 2 powr r"] .
  then have "2 powr (real_of_int k) = 2 powr (real n) * ulp ?x"
    by (simp only: powr_add ulp_def)
  then have k: "2 powr (real_of_int k) = 2 ^ n * ulp ?x"
    by (simp add: powr_realpow)
  have "a * p / u = a * c" if "0 < u" "p = c * u" for a p u c :: real
    using that by simp
  from this [OF ulp_pos k, of "real_of_int m"]
  have "?x / ulp ?x = real_of_int (m * 2 ^ n)"
    by simp
  then have "nearest_even (?x / ulp ?x) = m * 2 ^ n"
    by (simp only: nearest_even_int)
  then have "rd ?x = real_of_int (m * 2 ^ n) * ulp ?x"
    using x by (simp only: rd_def if_False)
  also have "\<dots> = real_of_int m * (2 ^ n * ulp ?x)"
    by simp
  also have "\<dots> = ?x"
    by (simp only: k [symmetric])
  finally show ?thesis .
qed

lemma rd_int: "\<bar>m\<bar> < 2 ^ 53 \<Longrightarrow> rd (of_int m) = of_int m"
  using rd_dyadic [of m 0] by simp

lemma rd_nat: "n < 2 ^ 53 \<Longrightarrow> rd (real n) = real n"
  using rd_int [of "int n"] by simp

lemma rd_256:
  assumes "\<bar>m\<bar> < 2 ^ 53"
  shows "rd (of_int m / 256) = of_int m / 256"
proof -
  have e: "real_of_int m * 2 powr (real_of_int (- 8)) = real_of_int m / 256"
    by (simp add: powr_minus_divide)
  show ?thesis
    using rd_dyadic [OF assms, of "- 8", unfolded e] .
qed

text \<open>
  For a positive double \<open>A\<close> the rounded root of the rounded square is \<open>A\<close> again: the
  root of a number within half a unit in the last place of \<open>A * A\<close> lies within half a
  unit in the last place of \<open>A\<close>.
\<close>

lemma sqrt_close:
  fixes y A q c :: real
  assumes "0 \<le> y" and "0 < A" and "0 < q" and "\<bar>y * y - A * A\<bar> \<le> c * q * q"
    and "2 * c * q < y + A"
  shows "\<bar>y - A\<bar> < q / 2"
proof (rule ccontr)
  assume "\<not> \<bar>y - A\<bar> < q / 2"
  then have h: "q / 2 \<le> \<bar>y - A\<bar>" by simp
  have s: "0 < y + A" using assms(1,2) by linarith
  have "(q / 2) * (2 * c * q) < (q / 2) * (y + A)"
    using assms(3,5) by (intro mult_strict_left_mono) simp_all
  also have "\<dots> \<le> \<bar>y - A\<bar> * (y + A)"
    using h s by (intro mult_right_mono) simp_all
  also have "\<dots> = \<bar>(y - A) * (y + A)\<bar>"
    using s by (simp add: abs_mult)
  also have "(y - A) * (y + A) = y * y - A * A"
    by (simp add: algebra_simps)
  finally have "c * q * q < \<bar>y * y - A * A\<bar>" by (simp add: mult.commute mult.left_commute)
  with assms(4) show False by linarith
qed

lemma square_le_imp_le:
  fixes c y :: real
  assumes "0 \<le> y" and "c * c \<le> y * y"
  shows "c \<le> y"
  using assms power2_le_imp_le [of c y] by (simp add: power2_eq_square)

lemma rd_sqrt_square:
  assumes "0 < A" and "rd A = A"
  shows "rd (sqrt (rd (A * A))) = A"
proof -
  define j where "j = expo A - 52"
  define q where "q = 2 powr (real_of_int j)"
  define m where "m = nearest_even (A / ulp A)"
  define P where "P = rd (A * A)"
  define y where "y = sqrt P"
  have q: "0 < q" by (simp add: q_def)
  have uq: "ulp A = q" by (simp add: q_def j_def ulp_def)
  have A: "A = of_int m * q"
    using assms by (simp add: rd_def m_def uq [symmetric])
  have lo: "2 ^ 52 * q \<le> A" and hi: "A < 2 ^ 53 * q"
    using ulp_bounds [of A] assms(1) by (simp_all add: uq)
  have "real_of_int m < 2 ^ 53" using hi q by (simp add: A)
  then have "real_of_int m < real_of_int (2 ^ 53)" by simp
  then have "m < 2 ^ 53" by (simp only: of_int_less_iff)
  then have "m \<le> 2 ^ 53 - 1" by simp
  then have "real_of_int m \<le> real_of_int (2 ^ 53 - 1)" by (simp only: of_int_le_iff)
  then have "real_of_int m \<le> 2 ^ 53 - 1" by simp
  then have "real_of_int m * q \<le> (2 ^ 53 - 1) * q" using q by (intro mult_right_mono) simp_all
  then have hi': "A \<le> 2 ^ 53 * q - q" by (simp add: A left_diff_distrib)
  have AA: "0 < A * A" using assms(1) by simp
  have lo2: "2 ^ 104 * (q * q) \<le> A * A"
  proof -
    have "(2 ^ 52 * q) * (2 ^ 52 * q) \<le> A * A"
      using lo q by (intro mult_mono) simp_all
    then show ?thesis by simp
  qed
  have hi2: "A * A < 2 ^ 106 * (q * q)"
  proof -
    have "A * A < (2 ^ 53 * q) * (2 ^ 53 * q)"
      using hi assms(1) q by (intro mult_strict_mono) simp_all
    then show ?thesis by simp
  qed
  have qq52: "2 powr (real_of_int (2 * j + 52)) = 2 ^ 52 * (q * q)"
  proof -
    have "real_of_int (2 * j + 52) = (real_of_int j + real_of_int j) + 52" by simp
    then have "2 powr (real_of_int (2 * j + 52)) = 2 powr ((real_of_int j + real_of_int j) + 52)"
      by (rule arg_cong)
    also have "\<dots> = 2 ^ 52 * 2 powr (real_of_int j + real_of_int j)"
      by (rule powr_shift(1))
    also have "\<dots> = 2 ^ 52 * (q * q)"
      by (simp only: powr_add q_def)
    finally show ?thesis .
  qed
  have qq53: "2 powr (real_of_int (2 * j + 53)) = 2 ^ 53 * (q * q)"
  proof -
    have "real_of_int (2 * j + 53) = (real_of_int j + real_of_int j) + 53" by simp
    then have "2 powr (real_of_int (2 * j + 53)) = 2 powr ((real_of_int j + real_of_int j) + 53)"
      by (rule arg_cong)
    also have "\<dots> = 2 ^ 53 * 2 powr (real_of_int j + real_of_int j)"
      by (rule powr_shift(2))
    also have "\<dots> = 2 ^ 53 * (q * q)"
      by (simp only: powr_add q_def)
    finally show ?thesis .
  qed
  have Ppos: "0 < P" using rd_pos [OF AA] by (simp add: P_def)
  have y0: "0 \<le> y" using Ppos by (simp add: y_def)
  have yy: "y * y = P" using Ppos by (simp add: y_def)
  have close: "\<bar>y - A\<bar> < q / 2 \<and> 2 ^ 52 * q \<le> y"
  proof (cases "A * A < 2 ^ 105 * (q * q)")
    case True
    have "ulp (A * A) = 2 powr (real_of_int (2 * j + 52))"
    proof (rule ulp_unique)
      show "2 ^ 52 * 2 powr (real_of_int (2 * j + 52)) \<le> \<bar>A * A\<bar>"
        unfolding qq52 using lo2 by simp
      show "\<bar>A * A\<bar> < 2 ^ 53 * 2 powr (real_of_int (2 * j + 52))"
        unfolding qq52 using True by simp
    qed
    then have u: "ulp (A * A) = 2 ^ 52 * (q * q)"
      by (simp only: qq52)
    have e: "\<bar>P - A * A\<bar> \<le> 2 ^ 51 * q * q"
      using rd_error [of "A * A"] by (simp add: P_def u)
    have Plo: "2 ^ 104 * (q * q) \<le> P"
      using rd_lower [OF AA] by (simp add: P_def u)
    have ylo: "2 ^ 52 * q \<le> y"
    proof (rule square_le_imp_le [OF y0])
      show "2 ^ 52 * q * (2 ^ 52 * q) \<le> y * y"
        using Plo by (simp add: yy)
    qed
    have "2 * 2 ^ 51 * q < y + A"
    proof -
      have "2 ^ 52 * q + 2 ^ 52 * q \<le> y + A" using ylo lo by linarith
      moreover have "2 * 2 ^ 51 * q < 2 ^ 52 * q + 2 ^ 52 * q" using q by simp
      ultimately show ?thesis by linarith
    qed
    then have "\<bar>y - A\<bar> < q / 2"
      using e by (intro sqrt_close [where c = "2 ^ 51"]) (simp_all add: y0 assms(1) q yy)
    with ylo show ?thesis by simp
  next
    case False
    then have lo3: "2 ^ 105 * (q * q) \<le> A * A" by simp
    have "ulp (A * A) = 2 powr (real_of_int (2 * j + 53))"
    proof (rule ulp_unique)
      show "2 ^ 52 * 2 powr (real_of_int (2 * j + 53)) \<le> \<bar>A * A\<bar>"
        unfolding qq53 using lo3 by simp
      show "\<bar>A * A\<bar> < 2 ^ 53 * 2 powr (real_of_int (2 * j + 53))"
        unfolding qq53 using hi2 by simp
    qed
    then have u: "ulp (A * A) = 2 ^ 53 * (q * q)"
      by (simp only: qq53)
    have e: "\<bar>P - A * A\<bar> \<le> 2 ^ 52 * q * q"
      using rd_error [of "A * A"] by (simp add: P_def u)
    have Plo: "2 ^ 105 * (q * q) \<le> P"
      using rd_lower [OF AA] by (simp add: P_def u)
    have big: "(5 / 4 * 2 ^ 52 * q) < t" if "0 \<le> t" "2 ^ 105 * (q * q) \<le> t * t" for t
    proof (rule ccontr)
      assume "\<not> 5 / 4 * 2 ^ 52 * q < t"
      then have "t \<le> 5 / 4 * 2 ^ 52 * q" by simp
      then have "t * t \<le> (5 / 4 * 2 ^ 52 * q) * (5 / 4 * 2 ^ 52 * q)"
        using that(1) by (intro mult_mono) simp_all
      also have "\<dots> = 25 / 16 * 2 ^ 104 * (q * q)" by simp
      also have "\<dots> < 2 ^ 105 * (q * q)" using q by simp
      finally show False using that(2) by simp
    qed
    have y1: "5 / 4 * 2 ^ 52 * q < y" using big [OF y0] Plo yy by simp
    have A1: "5 / 4 * 2 ^ 52 * q < A" using big [of A] lo3 assms(1) by simp
    have ylo: "2 ^ 52 * q \<le> y" using y1 q by simp
    have "2 * 2 ^ 52 * q < y + A" using y1 A1 q by simp
    then have "\<bar>y - A\<bar> < q / 2"
      using e by (intro sqrt_close [where c = "2 ^ 52"]) (simp_all add: y0 assms(1) q yy)
    with ylo show ?thesis by simp
  qed
  then have "y < 2 ^ 53 * q" using hi' q by (simp add: abs_if split: if_splits)
  with close have "rd y = of_int m * q"
    unfolding q_def by (intro rd_nearest) (simp_all add: A q_def)
  then show ?thesis by (simp add: y_def P_def A)
qed

lemma rd_gt_half:
  assumes "0 < x"
  shows "x / 2 < rd x"
proof -
  have "x < 2 ^ 53 * ulp x" using ulp_bounds(2) [of x] assms by simp
  then have "x / 2 < 2 ^ 52 * ulp x" by simp
  also have "\<dots> \<le> rd x" using assms by (rule rd_lower)
  finally show ?thesis .
qed

lemma rd_one: "rd 1 = 1"
  using rd_nat [of 1] by simp

lemma rd_threshold: "0 < rd 0.8" "rd 0.8 < 1"
proof -
  show "0 < rd 0.8" by (rule rd_pos) simp
  have "2 ^ 52 * ulp 0.8 \<le> 0.8" using ulp_bounds(1) [of "0.8"] by simp
  then have "ulp 0.8 / 2 < 0.1" by simp
  moreover have "\<bar>rd 0.8 - 0.8\<bar> \<le> ulp 0.8 / 2" by (rule rd_error)
  ultimately show "rd 0.8 < 1" by (simp add: abs_if split: if_splits)
qed

section \<open>Sums in double precision\<close>

text \<open>
  The sums that \<^verbatim>\<open>compareHist\<close> accumulates are sums of natural numbers. While they stay
  below \<open>2\<^sup>5\<^sup>3\<close> every partial sum is a double, so nothing is rounded, in whatever
  order the bins are added.
\<close>

lemma foldl_add_d:
  "acc + sum_list h < 2 ^ 53 \<Longrightarrow>
   foldl (\<lambda>s a. add_d s (real a)) (real acc) h = real (acc + sum_list h)"
proof (induction h arbitrary: acc)
  case Nil
  then show ?case by simp
next
  case (Cons a h)
  from Cons.prems have "acc + a < 2 ^ 53" by simp
  then have "add_d (real acc) (real a) = real (acc + a)"
    using rd_nat [of "acc + a"] by (simp add: add_d_def)
  moreover from Cons.prems have "(acc + a) + sum_list h < 2 ^ 53" by simp
  ultimately show ?case using Cons.IH [of "acc + a"] by (simp add: add.assoc)
qed

lemma foldl_add_mul_d:
  "acc + sum_list (map (\<lambda>(a, b). a * b) ps) < 2 ^ 53 \<Longrightarrow>
   foldl (\<lambda>s (a, b). add_d s (mul_d (real a) (real b))) (real acc) ps =
     real (acc + sum_list (map (\<lambda>(a, b). a * b) ps))"
proof (induction ps arbitrary: acc)
  case Nil
  then show ?case by simp
next
  case (Cons p ps)
  obtain a b where p: "p = (a, b)" by (cases p)
  from Cons.prems have "a * b < 2 ^ 53" "acc + a * b < 2 ^ 53" by (simp_all add: p)
  then have "add_d (real acc) (mul_d (real a) (real b)) = real (acc + a * b)"
    using rd_nat [of "a * b"] rd_nat [of "acc + a * b"] by (simp add: add_d_def mul_d_def)
  moreover from Cons.prems have "(acc + a * b) + sum_list (map (\<lambda>(a, b). a * b) ps) < 2 ^ 53"
    by (simp add: p)
  ultimately show ?case using Cons.IH [of "acc + a * b"] by (simp add: p add.assoc)
qed

lemma foldl_add_square_d:
  "acc + sum_list (map (\<lambda>a. a * a) h) < 2 ^ 53 \<Longrightarrow>
   foldl (\<lambda>s a. add_d s (mul_d (real a) (real a))) (real acc) h =
     real (acc + sum_list (map (\<lambda>a. a * a) h))"
proof (induction h arbitrary: acc)
  case Nil
  then show ?case by simp
next
  case (Cons a h)
  from Cons.prems have "a * a < 2 ^ 53" "acc + a * a < 2 ^ 53" by simp_all
  then have "add_d (real acc) (mul_d (real a) (real a)) = real (acc + a * a)"
    using rd_nat [of "a * a"] rd_nat [of "acc + a * a"] by (simp add: add_d_def mul_d_def)
  moreover from Cons.prems have "(acc + a * a) + sum_list (map (\<lambda>a. a * a) h) < 2 ^ 53"
    by simp
  ultimately show ?case using Cons.IH [of "acc + a * a"] by (simp add: add.assoc)
qed

lemma zip_self_products:
  "sum_list (map (\<lambda>(a, b). a * b) (zip h h)) = sum_list (map (\<lambda>a. a * a) (h :: nat list))"
  by (induction h) auto

lemma products_le:
  "sum_list (map (\<lambda>(a, b). a * b) (zip h1 h2)) \<le> sum_list h1 * sum_list (h2 :: nat list)"
proof (induction h1 arbitrary: h2)
  case Nil
  then show ?case by simp
next
  case (Cons a h1)
  show ?case
  proof (cases h2)
    case Nil
    then show ?thesis by simp
  next
    case (Cons b h2')
    have "a * b + sum_list (map (\<lambda>(a, b). a * b) (zip h1 h2')) \<le> a * b + sum_list h1 * sum_list h2'"
      using Cons.IH [of h2'] by simp
    also have "\<dots> \<le> (a + sum_list h1) * (b + sum_list h2')"
      by (simp add: algebra_simps)
    finally show ?thesis using Cons by simp
  qed
qed

lemma squares_le: "sum_list (map (\<lambda>a. a * a) h) \<le> sum_list h * sum_list (h :: nat list)"
  using products_le [of h h] by (simp add: zip_self_products)

section \<open>Histogram correlation\<close>

lemma centred_squares:
  fixes m :: real
  shows "sum_list (map (\<lambda>a. (real a - m)\<^sup>2) h) =
         real (sum_list (map (\<lambda>a. a * a) h)) - 2 * m * real (sum_list h) + real (length h) * m\<^sup>2"
  by (induction h) (auto simp: power2_eq_square algebra_simps)

lemma sum_list_squares_nonneg:
  fixes m :: real
  shows "0 \<le> sum_list (map (\<lambda>a. (real a - m)\<^sup>2) h)"
  by (induction h) auto

lemma variance_nonneg:
  "0 \<le> real (sum_list (map (\<lambda>a. a * a) h)) - real (sum_list h * sum_list h) / real (length h)"
proof (cases "h = []")
  case True
  then show ?thesis by simp
next
  case False
  then have n: "real (length h) > 0" by simp
  define m where "m = real (sum_list h) / real (length h)"
  have "real (length h) * m\<^sup>2 = m * real (sum_list h)"
    using n by (simp add: m_def power2_eq_square)
  then have "sum_list (map (\<lambda>a. (real a - m)\<^sup>2) h) =
      real (sum_list (map (\<lambda>a. a * a) h)) - m * real (sum_list h)"
    by (simp add: centred_squares)
  moreover have "m * real (sum_list h) = real (sum_list h * sum_list h) / real (length h)"
    by (simp add: m_def)
  ultimately show ?thesis
    using sum_list_squares_nonneg [of m h] by simp
qed

text \<open>
  The numerator and the two factors of the denominator are computed without any rounding
  when the histograms have 256 bins and hold at most 40000 pixels each.
\<close>

lemma mult_le_1600000000:
  "a \<le> 40000 \<Longrightarrow> b \<le> 40000 \<Longrightarrow> a * b \<le> (1600000000::nat)"
  using mult_le_mono [of a 40000 b 40000] by simp

lemma rd_nat_256:
  assumes "n < 2 ^ 53"
  shows "rd (real n / 256) = real n / 256"
proof -
  have "\<bar>int n\<bar> < 2 ^ 53" using assms by simp
  then have "rd (real_of_int (int n) / 256) = real_of_int (int n) / 256" by (rule rd_256)
  then show ?thesis by simp
qed

lemma rd_diff_256:
  assumes "256 * s < 2 ^ 53" and "p < 2 ^ 53"
  shows "rd (real s - real p / 256) = real s - real p / 256"
proof -
  from assms have "int (256 * s) < 9007199254740992" "int p < 9007199254740992"
    by simp_all
  then have "\<bar>256 * int s - int p\<bar> < 9007199254740992" by simp
  then have "\<bar>256 * int s - int p\<bar> < 2 ^ 53" by simp
  then have "rd (real_of_int (256 * int s - int p) / 256) = real_of_int (256 * int s - int p) / 256"
    by (rule rd_256)
  moreover have "real_of_int (256 * int s - int p) / 256 = real s - real p / 256"
    by simp
  ultimately show ?thesis by (simp only:)
qed

lemma centred_exact:
  assumes "s \<le> a * b" and "a \<le> 40000" and "b \<le> 40000"
  shows "sub_d (real s) (mul_d (mul_d (real a) (real b)) (div_d 1 (real (256::nat)))) =
           real s - real (a * b) / 256"
    and "rd (real s - real (a * b) / 256) = real s - real (a * b) / 256"
proof -
  from assms(2,3) have ab: "a * b \<le> 1600000000" by (rule mult_le_1600000000)
  with assms(1) have s: "s \<le> 1600000000" by simp
  have scale: "div_d 1 (real (256::nat)) = 1 / 256"
    using rd_nat_256 [of 1] by (simp add: div_d_def)
  have prod: "mul_d (real a) (real b) = real (a * b)"
    using rd_nat [of "a * b"] ab by (simp add: mul_d_def)
  have "rd (real (a * b) / 256) = real (a * b) / 256"
    using ab by (intro rd_nat_256) simp
  then have scaled: "mul_d (real (a * b)) (1 / 256) = real (a * b) / 256"
    by (simp add: mul_d_def)
  show r: "rd (real s - real (a * b) / 256) = real s - real (a * b) / 256"
    using ab s by (intro rd_diff_256) simp_all
  then show "sub_d (real s) (mul_d (mul_d (real a) (real b)) (div_d 1 (real (256::nat)))) =
           real s - real (a * b) / 256"
    by (simp only: scale prod scaled sub_d_def)
qed

lemma compareHist_exact:
  assumes "small h1" and "small h2"
  shows "compareHist h1 h2 =
     (let num = real (sum_list (map (\<lambda>(a, b). a * b) (zip h1 h2)))
                  - real (sum_list h1 * sum_list h2) / 256;
          v1 = real (sum_list (map (\<lambda>a. a * a) h1)) - real (sum_list h1 * sum_list h1) / 256;
          v2 = real (sum_list (map (\<lambda>a. a * a) h2)) - real (sum_list h2 * sum_list h2) / 256
      in if \<bar>rd (v1 * v2)\<bar> > DBL_EPSILON then rd (num / rd (sqrt (rd (v1 * v2)))) else 1)"
proof -
  from assms have b1: "sum_list h1 \<le> 40000" and b2: "sum_list h2 \<le> 40000"
    and l: "length h1 = 256"
    by (simp_all add: small_def)
  have p12: "sum_list h1 * sum_list h2 \<le> 40000 * 40000"
    and p11: "sum_list h1 * sum_list h1 \<le> 40000 * 40000"
    and p22: "sum_list h2 * sum_list h2 \<le> 40000 * 40000"
    using b1 b2 by (simp_all add: mult_le_1600000000)
  note q12 = products_le [of h1 h2] and q11 = squares_le [of h1] and q22 = squares_le [of h2]
  have s1: "foldl (\<lambda>s a. add_d s (real a)) 0 h1 = real (sum_list h1)"
    using foldl_add_d [of 0 h1] b1 by simp
  have s2: "foldl (\<lambda>s a. add_d s (real a)) 0 h2 = real (sum_list h2)"
    using foldl_add_d [of 0 h2] b2 by simp
  have s11: "foldl (\<lambda>s a. add_d s (mul_d (real a) (real a))) 0 h1 = real (sum_list (map (\<lambda>a. a * a) h1))"
    using foldl_add_square_d [of 0 h1] q11 p11 by simp
  have s22: "foldl (\<lambda>s a. add_d s (mul_d (real a) (real a))) 0 h2 = real (sum_list (map (\<lambda>a. a * a) h2))"
    using foldl_add_square_d [of 0 h2] q22 p22 by simp
  have s12: "foldl (\<lambda>s (a, b). add_d s (mul_d (real a) (real b))) 0 (zip h1 h2) =
      real (sum_list (map (\<lambda>(a, b). a * b) (zip h1 h2)))"
    using foldl_add_mul_d [of 0 "zip h1 h2"] q12 p12 by simp
  show ?thesis
    unfolding compareHist_def Let_def s1 s2 s11 s22 s12 l
      centred_exact(1) [OF q12 b1 b2] centred_exact(1) [OF q11 b1 b1] centred_exact(1) [OF q22 b2 b2]
    by (simp only: mul_d_def div_d_def sqrt_d_def)
qed

lemma compareHist_same:
  assumes "small h"
  shows "compareHist h h = 1"
proof -
  define V where "V = real (sum_list (map (\<lambda>a. a * a) h)) - real (sum_list h * sum_list h) / 256"
  from assms have l: "length h = 256" and b: "sum_list h \<le> 40000"
    by (simp_all add: small_def)
  have V: "0 \<le> V" using variance_nonneg [of h] by (simp add: V_def l)
  have ex: "rd V = V"
    unfolding V_def by (rule centred_exact(2) [OF squares_le b b])
  have c: "compareHist h h = (if \<bar>rd (V * V)\<bar> > DBL_EPSILON then rd (V / rd (sqrt (rd (V * V)))) else 1)"
    by (simp add: compareHist_exact [OF assms assms] Let_def zip_self_products V_def)
  show ?thesis
  proof (cases "\<bar>rd (V * V)\<bar> > DBL_EPSILON")
    case False
    with c show ?thesis by simp
  next
    case True
    have "V \<noteq> 0"
    proof
      assume "V = 0"
      then have "rd (V * V) = 0" by (simp add: rd_def)
      with True show False by (simp add: DBL_EPSILON_def)
    qed
    with V have pos: "0 < V" by simp
    then have "rd (sqrt (rd (V * V))) = V" using ex by (rule rd_sqrt_square)
    with c True pos show ?thesis by (simp add: rd_one)
  qed
qed

section \<open>Histograms of pictures\<close>

lemma sum_list_pick:
  "u < n \<Longrightarrow> sum_list (map (\<lambda>v. if v = u then h v else 0) [0..<n]) = (h u :: nat)"
  by (simp add: sum_list_distinct_conv_sum_set)

lemma word8_of_nat_eq:
  "v < 256 \<Longrightarrow> u < 256 \<Longrightarrow> (word_of_nat v :: 8 word) = word_of_nat u \<longleftrightarrow> v = u"
  by (simp add: word_of_nat_eq_iff take_bit_nat_eq_self)

lemma bins_of_pixel:
  "sum_list (map (\<lambda>v. if x = (word_of_nat v :: 8 word) then 1 else 0) [0..<256]) = (1::nat)"
proof -
  have u: "unat x < 256" using unsigned_less [of x] by simp
  have x: "x = word_of_nat (unat x)" by simp
  have "map (\<lambda>v. if x = (word_of_nat v :: 8 word) then 1 else 0) [0..<256]
      = map (\<lambda>v. if v = unat x then 1 else (0::nat)) [0..<256]"
  proof (rule map_cong [OF refl])
    fix v :: nat
    assume "v \<in> set [0..<256]"
    then have "v < 256" by (simp only: set_upt atLeastLessThan_iff)
    then have "(word_of_nat v :: 8 word) = word_of_nat (unat x) \<longleftrightarrow> v = unat x"
      using u by (rule word8_of_nat_eq)
    then show "(if x = (word_of_nat v :: 8 word) then 1 else 0) = (if v = unat x then 1 else (0::nat))"
      using x by metis
  qed
  then show ?thesis
    using sum_list_pick [OF u, of "\<lambda>v. 1"] by (simp only:)
qed

lemma sum_list_counts:
  "sum_list (map (\<lambda>v. count_list xs (word_of_nat v :: 8 word)) [0..<256]) = length xs"
proof (induction xs)
  case Nil
  show ?case by (simp only: count_list.simps) (simp add: sum_list_0)
next
  case (Cons x xs)
  have "map (\<lambda>v. count_list (x # xs) (word_of_nat v :: 8 word)) [0..<256] =
        map (\<lambda>v. (if x = (word_of_nat v :: 8 word) then 1 else 0) + count_list xs (word_of_nat v)) [0..<256]"
    by (rule map_cong [OF refl]) simp
  then have "sum_list (map (\<lambda>v. count_list (x # xs) (word_of_nat v :: 8 word)) [0..<256]) =
        sum_list (map (\<lambda>v. if x = (word_of_nat v :: 8 word) then 1 else 0) [0..<256])
        + sum_list (map (\<lambda>v. count_list xs (word_of_nat v :: 8 word)) [0..<256])"
    by (simp only: sum_list_addf)
  then show ?case
    by (simp only: bins_of_pixel Cons.IH) simp
qed

lemma calcHist_size: "length (calcHist img) = 256" "sum_list (calcHist img) = length (data img)"
  by (simp_all only: calcHist_def length_map length_upt sum_list_counts)

lemma fit_size: "length (fit xs) = 40000"
  by (simp add: fit_def)

lemma fit_full: "length xs = 40000 \<Longrightarrow> fit xs = xs"
  by (simp add: fit_def)

lemma small_calcHist_resize: "small (calcHist (resize interp img))"
  by (simp add: small_def calcHist_size resize_def fit_size)

lemma threshold_below_1: "rd (4 / 5) < 1" "0 < rd (4 / 5)"
  using rd_threshold by simp_all

lemma score_same_hist:
  "calcHist (resize interp a) = calcHist (resize interp b) \<Longrightarrow> score interp a b = 1"
  by (simp add: score_def compareHist_same small_calcHist_resize)

lemma compare_images_decoded:
  "imread fs p1 = Some a \<Longrightarrow> imread fs p2 = Some b \<Longrightarrow>
   compare_images interp fs p1 p2 = (score interp a b > rd 0.8)"
  by (simp add: compare_images_def)

lemma compare_images_same_file:
  "fs p = Some a \<Longrightarrow> compare_images interp fs (Some p) (Some p)"
  by (simp add: compare_images_def imread_def score_same_hist threshold_below_1)

section \<open>Pictures with known scores\<close>

text \<open>
  A negative numerator over a positive denominator: the score is negative, whatever the
  rounding of the product, the root and the quotient.
\<close>

lemma compareHist_negative:
  assumes "small h1" and "small h2"
    and n: "256 * sum_list (map (\<lambda>(a, b). a * b) (zip h1 h2)) < sum_list h1 * sum_list h2"
    and a: "sum_list h1 * sum_list h1 < 256 * sum_list (map (\<lambda>a. a * a) h1)"
    and b: "sum_list h2 * sum_list h2 < 256 * sum_list (map (\<lambda>a. a * a) h2)"
  shows "compareHist h1 h2 < 0"
proof -
  define num where "num = real (sum_list (map (\<lambda>(a, b). a * b) (zip h1 h2)))
                  - real (sum_list h1 * sum_list h2) / 256"
  define v1 where "v1 = real (sum_list (map (\<lambda>a. a * a) h1)) - real (sum_list h1 * sum_list h1) / 256"
  define v2 where "v2 = real (sum_list (map (\<lambda>a. a * a) h2)) - real (sum_list h2 * sum_list h2) / 256"
  have c: "compareHist h1 h2 =
      (if \<bar>rd (v1 * v2)\<bar> > DBL_EPSILON then rd (num / rd (sqrt (rd (v1 * v2)))) else 1)"
    by (simp add: compareHist_exact [OF assms(1,2)] Let_def num_def v1_def v2_def)
  have step: "1 / 256 \<le> real s - real p / 256" if "p < 256 * s" for s p :: nat
  proof -
    from that have "p + 1 \<le> 256 * s" by simp
    then have "real (p + 1) \<le> real (256 * s)" by (simp only: of_nat_le_iff)
    then show ?thesis by simp
  qed
  have num: "num < 0"
  proof -
    from n have "real (256 * sum_list (map (\<lambda>(a, b). a * b) (zip h1 h2))) < real (sum_list h1 * sum_list h2)"
      by (simp only: of_nat_less_iff)
    then show ?thesis by (simp add: num_def)
  qed
  have v1: "1 / 256 \<le> v1" unfolding v1_def using a by (rule step)
  have v2: "1 / 256 \<le> v2" unfolding v2_def using b by (rule step)
  have "(1 / 256) * (1 / 256) \<le> v1 * v2"
    using v1 v2 by (intro mult_mono) simp_all
  then have big: "1 / 65536 \<le> v1 * v2" by simp
  then have pos: "0 < v1 * v2" by linarith
  have "v1 * v2 / 2 < rd (v1 * v2)" using pos by (rule rd_gt_half)
  with big have d: "1 / 131072 < rd (v1 * v2)" by linarith
  then have "DBL_EPSILON < \<bar>rd (v1 * v2)\<bar>"
    by (simp add: DBL_EPSILON_def)
  moreover have "0 < rd (sqrt (rd (v1 * v2)))"
    using d by (intro rd_pos) simp
  then have "num / rd (sqrt (rd (v1 * v2))) < 0"
    using num by (simp add: divide_neg_pos)
  then have "rd (num / rd (sqrt (rd (v1 * v2)))) < 0" by (rule rd_neg)
  ultimately show ?thesis by (simp add: c)
qed

lemma count_list_replicate: "count_list (replicate n x) y = (if x = y then n else 0)"
  by (induction n) auto

lemma zip_map_products:
  "map (\<lambda>(a, b). a * b) (zip (map f xs) (map g xs)) = map (\<lambda>v. f v * g v) (xs :: nat list)"
  by (induction xs) auto

lemma resize_full:
  "rows img = 200 \<Longrightarrow> cols img = 200 \<Longrightarrow> length (data img) = 40000 \<Longrightarrow> resize interp img = img"
  by (simp add: resize_def fit_full)

lemma resize_examples [simp]:
  "resize interp half_dark = half_dark"
  "resize interp half_dark_flipped = half_dark_flipped"
  "resize interp grey = grey"
  by (simp_all add: resize_full half_dark_def half_dark_flipped_def grey_def)

lemma calcHist_flipped: "calcHist half_dark_flipped = calcHist half_dark"
  unfolding calcHist_def half_dark_def half_dark_flipped_def
  by (rule map_cong) (simp_all add: count_list_replicate)

lemma flipped_differs: "half_dark_flipped \<noteq> half_dark"
proof
  assume "half_dark_flipped = half_dark"
  then have "hd (data half_dark_flipped) = hd (data half_dark)" by simp
  then show False
    by (simp add: half_dark_def half_dark_flipped_def hd_append)
qed

lemma grey_differs: "grey \<noteq> half_dark" "grey \<noteq> half_dark_flipped"
proof -
  have "hd (data grey) \<noteq> hd (data half_dark)" "hd (data grey) \<noteq> hd (data half_dark_flipped)"
    by (simp_all add: grey_def half_dark_def half_dark_flipped_def hd_append)
  then show "grey \<noteq> half_dark" "grey \<noteq> half_dark_flipped" by auto
qed

lemma bin_of_grey: "40000 \<in> set (calcHist grey)"
proof -
  have "count_list (data grey) (word_of_nat 128 :: 8 word) = 40000"
    by (simp add: grey_def count_list_replicate)
  moreover have "(128::nat) \<in> set [0..<256]" by simp
  ultimately show ?thesis
    unfolding calcHist_def by (metis (no_types, lifting) image_eqI set_map)
qed

lemma bin_of_half_dark: "20000 \<in> set (calcHist half_dark)"
proof -
  have "count_list (data half_dark) (word_of_nat 0 :: 8 word) = 20000"
    by (simp add: half_dark_def count_list_replicate)
  moreover have "(0::nat) \<in> set [0..<256]" by simp
  ultimately show ?thesis
    unfolding calcHist_def by (metis (no_types, lifting) image_eqI set_map)
qed

lemma square_in_squares: "c \<in> set h \<Longrightarrow> c * c \<le> sum_list (map (\<lambda>a. a * a) (h :: nat list))"
  by (rule member_le_sum_list) auto

lemma no_common_bin:
  "sum_list (map (\<lambda>(a, b). a * b) (zip (calcHist grey) (calcHist half_dark))) = 0"
proof -
  have "map (\<lambda>v. count_list (data grey) (word_of_nat v :: 8 word)
                 * count_list (data half_dark) (word_of_nat v)) [0..<256] =
        map (\<lambda>v. 0) [0..<256]"
    by (rule map_cong [OF refl]) (auto simp: grey_def half_dark_def count_list_replicate)
  then show ?thesis
    unfolding calcHist_def zip_map_products by (simp only: sum_list_0) 
qed

lemma score_grey: "score interp grey half_dark < 0" "score interp grey half_dark_flipped < 0"
proof -
  have g: "small (calcHist grey)" and h: "small (calcHist half_dark)"
    using small_calcHist_resize [of interp grey] small_calcHist_resize [of interp half_dark] by simp_all
  have sg: "sum_list (calcHist grey) = 40000" and sh: "sum_list (calcHist half_dark) = 40000"
    by (simp_all add: calcHist_size grey_def half_dark_def)
  have "40000 * 40000 \<le> sum_list (map (\<lambda>a. a * a) (calcHist grey))"
    using bin_of_grey by (rule square_in_squares)
  then have a: "sum_list (calcHist grey) * sum_list (calcHist grey)
      < 256 * sum_list (map (\<lambda>a. a * a) (calcHist grey))"
    by (simp add: sg)
  have "20000 * 20000 \<le> sum_list (map (\<lambda>a. a * a) (calcHist half_dark))"
    using bin_of_half_dark by (rule square_in_squares)
  then have b: "sum_list (calcHist half_dark) * sum_list (calcHist half_dark)
      < 256 * sum_list (map (\<lambda>a. a * a) (calcHist half_dark))"
    by (simp add: sh)
  have n: "256 * sum_list (map (\<lambda>(a, b). a * b) (zip (calcHist grey) (calcHist half_dark)))
      < sum_list (calcHist grey) * sum_list (calcHist half_dark)"
    by (simp add: no_common_bin sg sh)
  have "compareHist (calcHist grey) (calcHist half_dark) < 0"
    using g h n a b by (rule compareHist_negative)
  then show "score interp grey half_dark < 0" "score interp grey half_dark_flipped < 0"
    by (simp_all add: score_def calcHist_flipped)
qed

lemma count_list_concat_replicate:
  "count_list (concat (map (\<lambda>v. replicate (h v) (g v)) vs)) y =
     sum_list (map (\<lambda>v. if g v = y then h v else 0) vs)"
  by (induction vs) (auto simp: count_list_replicate)

lemma count_spread:
  assumes "u < 256"
  shows "count_list (data (spread h)) (word_of_nat u) = h u"
proof -
  have "map (\<lambda>v. if (word_of_nat v :: 8 word) = word_of_nat u then h v else 0) [0..<256]
      = map (\<lambda>v. if v = u then h v else 0) [0..<256]"
    using assms by (intro map_cong refl) (simp add: word8_of_nat_eq)
  then have "sum_list (map (\<lambda>v. if (word_of_nat v :: 8 word) = word_of_nat u then h v else 0) [0..<256])
      = sum_list (map (\<lambda>v. if v = u then h v else 0) [0..<256])"
    by (rule arg_cong)
  also have "\<dots> = h u"
    using assms by (rule sum_list_pick)
  finally show ?thesis
    by (simp only: spread_def image.simps count_list_concat_replicate)
qed

lemma calcHist_spread: "calcHist (spread h) = map h [0..<256]"
  unfolding calcHist_def
proof (rule map_cong)
  show "[0..<256] = [0..<(256::nat)]" by (rule refl)
next
  fix x :: nat
  assume "x \<in> set [0..<256]"
  then have "x < 256" by (simp only: set_upt atLeastLessThan_iff)
  then show "count_list (data (spread h)) (word_of_nat x) = h x" by (rule count_spread)
qed

lemma upt_256_split: "[0..<256] = [0, 1, 2] @ [3..<256]"
proof -
  have "[0..<3 + 253] = [0..<3] @ [3..<3 + 253]"
    by (rule upt_add_eq_append) simp
  moreover have "[0..<3] = [0, 1, 2]"
    by code_simp
  ultimately show ?thesis by simp
qed

lemma sum_list_tail_const:
  fixes f :: "nat \<Rightarrow> nat"
  assumes "\<And>v. 3 \<le> v \<Longrightarrow> f v = c"
  shows "sum_list (map f [0..<256]) = f 0 + f 1 + f 2 + 253 * c"
proof -
  have "map f [3..<256] = map (\<lambda>v. c) [3..<256]"
    by (rule map_cong) (simp_all only: set_upt atLeastLessThan_iff assms)
  then have "sum_list (map f [3..<256]) = 253 * c"
    by (simp only: map_replicate_const sum_list_replicate length_upt) simp
  then show ?thesis
    by (simp only: upt_256_split map_append sum_list_append list.map sum_list.Cons sum_list.Nil)
qed

lemma sums_x:
  "sum_list (map hist_x [0..<256]) = 40000"
  "sum_list (map (\<lambda>v. hist_x v * hist_x v) [0..<256]) = 6252000"
  by (simp_all add: sum_list_tail_const [where c = 156] sum_list_tail_const [where c = "156 * 156"] hist_x_def)

lemma sums_y:
  "sum_list (map hist_y [0..<256]) = 40000"
  "sum_list (map (\<lambda>v. hist_y v * hist_y v) [0..<256]) = 6252000"
  "sum_list (map (\<lambda>v. hist_x v * hist_y v) [0..<256]) = 6251600"
  by (simp_all add: sum_list_tail_const [where c = 156] sum_list_tail_const [where c = "156 * 156"]
        hist_x_def hist_y_def)

lemma spread_size:
  "length (data (spread hist_x)) = 40000" "length (data (spread hist_y)) = 40000"
  by (simp_all add: spread_def length_concat comp_def sums_x sums_y)

lemma spread_dims: "rows (spread h) = 200" "cols (spread h) = 200"
  by (simp_all add: spread_def)

lemma compareHist_x_y: "compareHist (map hist_x [0..<256]) (map hist_y [0..<256]) = rd (4 / 5)"
proof -
  have "sqrt (2000 * 2000) = 2000" by simp
  then have r: "sqrt 4000000 = 2000" by simp
  have sx: "small (map hist_x [0..<256])" and sy: "small (map hist_y [0..<256])"
    by (simp_all add: small_def sums_x sums_y)
  have xx: "sum_list (map (\<lambda>a. a * a) (map hist_x [0..<256])) = 6252000"
    by (simp only: map_map comp_def sums_x)
  have yy: "sum_list (map (\<lambda>b. b * b) (map hist_y [0..<256])) = 6252000"
    by (simp only: map_map comp_def sums_y)
  have d: "rd 4000000 = 4000000" "rd 2000 = 2000"
    using rd_nat [of 4000000] rd_nat [of 2000] by simp_all
  show ?thesis
    unfolding compareHist_exact [OF sx sy] Let_def zip_map_products sums_x sums_y xx yy
    by (simp add: DBL_EPSILON_def r d)
qed

text \<open>
  Two pictures whose score is the double nearest to 0.8, the threshold itself:
  \<^verbatim>\<open>compare_images\<close> tests \<^verbatim>\<open>score > 0.8\<close> and answers False.
\<close>

lemma score_x_y: "score interp (spread hist_x) (spread hist_y) = rd 0.8"
proof -
  have "resize interp (spread hist_x) = spread hist_x" "resize interp (spread hist_y) = spread hist_y"
    by (rule resize_full; simp add: spread_dims spread_size)+
  then show ?thesis
    by (simp add: score_def calcHist_spread compareHist_x_y)
qed

lemma threshold_pair_rejected:
  "\<not> compare_images interp
        ((\<lambda>p. None)(''voters/faces/v1.jpg'' \<mapsto> spread hist_x, ''voters/faces/v2.jpg'' \<mapsto> spread hist_y))
        (Some ''voters/faces/v1.jpg'') (Some ''voters/faces/v2.jpg'')"
  by (simp add: compare_images_def imread_def score_x_y)

section \<open>The comparison sees histograms only\<close>

text \<open>
  C10. The result of \<^verbatim>\<open>compare_images\<close> depends on the two pictures only through the
  histograms of their resized forms: two pairs of decodable pictures with pairwise equal
  histograms get the same result. In particular a picture compared with any picture of
  equal histogram, such as a spatial rearrangement of it, scores 1 and is accepted.
\<close>

theorem compare_images_histogram_only:
  assumes "imread fs p1 = Some a" and "imread fs p2 = Some b"
    and "imread fs' p1' = Some a'" and "imread fs' p2' = Some b'"
    and "calcHist (resize interp a) = calcHist (resize interp a')"
    and "calcHist (resize interp b) = calcHist (resize interp b')"
  shows "compare_images interp fs p1 p2 = compare_images interp fs' p1' p2'
       \<and> (calcHist (resize interp a) = calcHist (resize interp b) \<longrightarrow>
            score interp a b = 1 \<and> compare_images interp fs p1 p2)"
  using assms
  by (simp add: compare_images_decoded score_same_hist threshold_below_1) (simp add: score_def)

theorem compare_images_histogram_only_witness:
  "half_dark_flipped \<noteq> half_dark
   \<and> calcHist (resize (\<lambda>img. img) half_dark) = calcHist (resize (\<lambda>img. img) half_dark_flipped)
   \<and> score (\<lambda>img. img) half_dark half_dark_flipped = 1
   \<and> compare_images (\<lambda>img. img)
         ((\<lambda>p. None)(''voters/faces/v1.jpg'' \<mapsto> half_dark, ''voters/faces/v2.jpg'' \<mapsto> half_dark_flipped))
         (Some ''voters/faces/v1.jpg'') (Some ''voters/faces/v2.jpg'')"
proof -
  let ?fs = "(\<lambda>p. None)(''voters/faces/v1.jpg'' \<mapsto> half_dark, ''voters/faces/v2.jpg'' \<mapsto> half_dark_flipped)"
  have h: "calcHist (resize (\<lambda>img. img) half_dark) = calcHist (resize (\<lambda>img. img) half_dark_flipped)"
    by (simp only: resize_examples calcHist_flipped)
  have a: "imread ?fs (Some ''voters/faces/v1.jpg'') = Some half_dark"
    by (simp add: imread_def)
  have b: "imread ?fs (Some ''voters/faces/v2.jpg'') = Some half_dark_flipped"
    by (simp add: imread_def)
  from compare_images_histogram_only [OF a b a b refl refl] h flipped_differs
  show ?thesis by blast
qed

section \<open>Facts about the database functions\<close>

lemma find_app:
  "find P (xs @ ys) = (case find P xs of None \<Rightarrow> find P ys | Some x \<Rightarrow> Some x)"
  by (induction xs) auto

lemma get_user_None_iff: "get_user s uid = None \<longleftrightarrow> (\<forall>r \<in> set (users s). user_id r \<noteq> uid)"
  by (auto simp: get_user_def find_None_iff)

lemma get_user_Some_user_id: "get_user s uid = Some r \<Longrightarrow> user_id r = uid \<and> r \<in> set (users s)"
  by (auto simp: get_user_def find_Some_iff)

lemma add_user_locked: "locked s \<Longrightarrow> add_user s uid f e = Inl OperationalError"
  by (simp add: add_user_def)

lemma add_user_existing:
  "\<not> locked s \<Longrightarrow> get_user s uid = Some r \<Longrightarrow> add_user s uid f e = Inr (False, s\<lparr>locked := True\<rparr>)"
  by (auto simp: add_user_def dest: get_user_Some_user_id)

lemma add_user_new:
  assumes "\<not> locked s" and "get_user s uid = None"
  shows "add_user s uid f e =
           Inr (True, s\<lparr>users := users s @
              [\<lparr>row_id = Suc (length (users s)), user_id = uid,
                face_path = f, eye_path = e, has_voted = 0\<rparr>]\<rparr>)"
  using assms by (auto simp: add_user_def get_user_None_iff)

lemma find_map_upd:
  "find (\<lambda>r. user_id r = uid) (map (\<lambda>r. if user_id r = u then r\<lparr>has_voted := 1\<rparr> else r) xs)
     = map_option (\<lambda>r. if user_id r = u then r\<lparr>has_voted := 1\<rparr> else r) (find (\<lambda>r. user_id r = uid) xs)"
  by (induction xs) auto

lemma get_user_mark_voted:
  "mark_voted s u = Inr s' \<Longrightarrow>
   get_user s' uid =
     map_option (\<lambda>r. if user_id r = u then r\<lparr>has_voted := 1\<rparr> else r) (get_user s uid)"
  by (auto simp: get_user_def mark_voted_def find_map_upd split: if_splits)

lemma get_user_save_vote: "save_vote s u c = Inr s' \<Longrightarrow> get_user s' uid = get_user s uid"
  by (auto simp: get_user_def save_vote_def split: if_splits)

lemma get_user_files [simp]: "get_user (s\<lparr>files := fs\<rparr>) uid = get_user s uid"
  by (simp add: get_user_def)

lemma get_user_locked [simp]: "get_user (s\<lparr>locked := b\<rparr>) uid = get_user s uid"
  by (simp add: get_user_def)

lemma get_user_add_user_keeps:
  "add_user s u f e = Inr (b, s') \<Longrightarrow> get_user s uid = Some r \<Longrightarrow> get_user s' uid = Some r"
  by (auto simp: add_user_def get_user_def find_app split: if_splits)

section \<open>The routes, run alone\<close>

lemma compare_images_no_path [simp]:
  "compare_images interp fs None p = False" "compare_images interp fs p None = False"
  by (simp_all add: compare_images_def imread_def split: option.splits)

lemma has_already_voted_files [simp]:
  "has_already_voted (s\<lparr>files := fs\<rparr>) uid = has_already_voted s uid"
  by (simp add: has_already_voted_def)

lemma has_already_voted_locked [simp]:
  "has_already_voted (s\<lparr>locked := b\<rparr>) uid = has_already_voted s uid"
  by (simp add: has_already_voted_def)

lemma enrolled_v1_reached:
  "register ''v1'' [face_shot] [eye_shot] (create_db (\<lambda>p. None)) = Some (Registered, enrolled_v1)"
  by (simp add: register_def add_user_def create_db_def face_shot_def eye_shot_def enrolled_v1_def)

lemma voted_v1_reached:
  "vote (\<lambda>img. img) ''v1'' ''A'' [face_shot] [eye_shot] enrolled_v1 = Some (Vote_registered, voted_v1)"
  by (auto simp: vote_def has_already_voted_def get_user_def enrolled_v1_def voted_v1_def
        face_shot_def eye_shot_def compare_images_same_file save_vote_def mark_voted_def)

text \<open>
  The file a capture writes is the file the record of the voter points to: whatever the
  camera shows, \<^verbatim>\<open>vote\<close> compares each new picture with itself.
\<close>

lemma capture_image_result:
  assumes "capture_image uid img_type cam fs = Some (Some p, fs')"
  shows "fs' p \<noteq> None \<and> (\<forall>q. q \<noteq> p \<longrightarrow> fs' q = fs q)
       \<and> (img_type = ''face'' \<longrightarrow> p = ''voters/faces/'' @ uid @ ''.jpg'')
       \<and> (img_type = ''eye'' \<longrightarrow> p = ''voters/eyes/'' @ uid @ ''.jpg'')"
  using assms
  by (induction cam) (auto split: if_splits)

lemma vote_compares_file_with_itself:
  assumes "get_user s uid = Some user" and "\<not> has_already_voted s uid" and "\<not> locked s"
    and "face_path user = Some (''voters/faces/'' @ uid @ ''.jpg'')"
    and "eye_path user = Some (''voters/eyes/'' @ uid @ ''.jpg'')"
    and "capture_image uid ''face'' cam1 (files s) = Some (Some p1, fs1)"
    and "capture_image uid ''eye'' cam2 fs1 = Some (Some p2, fs2)"
  shows "\<exists>s'. vote interp uid cand cam1 cam2 s = Some (Vote_registered, s')"
proof -
  from capture_image_result [OF assms(6)]
  have p1: "p1 = ''voters/faces/'' @ uid @ ''.jpg''" and f1: "fs1 p1 \<noteq> None" by auto
  from capture_image_result [OF assms(7)]
  have p2: "p2 = ''voters/eyes/'' @ uid @ ''.jpg''" and f2: "fs2 p2 \<noteq> None"
    and keep: "\<forall>q. q \<noteq> p2 \<longrightarrow> fs2 q = fs1 q" by auto
  have "p1 \<noteq> p2" by (simp add: p1 p2)
  with keep f1 have "fs2 p1 \<noteq> None" by simp
  with f2 have "compare_images interp fs2 (Some p1) (Some p1)" "compare_images interp fs2 (Some p2) (Some p2)"
    by (auto simp: compare_images_same_file)
  then show ?thesis
    using assms by (simp add: vote_def p1 p2 save_vote_def mark_voted_def)
qed

text \<open>
  C4. A voter is enrolled with one face and one eye; the vote request for this voter is
  made in front of somebody else. The captured face scores below 0 against the enrolled
  face and the captured eye below 0 against the enrolled eye, so neither score reaches the
  threshold 0.8, and the vote is accepted and stored: before the comparison the capture has
  replaced the enrolled picture, and each file is compared with itself.
\<close>

theorem any_capture_accepted:
  "register ''v1'' [face_shot] [eye_shot] (create_db (\<lambda>p. None)) = Some (Registered, enrolled_v1)
   \<and> files enrolled_v1 ''voters/faces/v1.jpg'' = Some half_dark
   \<and> files enrolled_v1 ''voters/eyes/v1.jpg'' = Some half_dark_flipped
   \<and> hd (faces stranger_face) = grey \<and> hd (eyes stranger_eye) = grey
   \<and> score (\<lambda>img. img) grey half_dark < 0
   \<and> score (\<lambda>img. img) grey half_dark_flipped < 0
   \<and> vote (\<lambda>img. img) ''v1'' ''A'' [stranger_face] [stranger_eye] enrolled_v1 =
       Some (Vote_registered,
             voted_v1\<lparr>files := (\<lambda>p. None)(''voters/faces/v1.jpg'' \<mapsto> grey,
                                              ''voters/eyes/v1.jpg'' \<mapsto> grey)\<rparr>)"
proof -
  have "vote (\<lambda>img. img) ''v1'' ''A'' [stranger_face] [stranger_eye] enrolled_v1 =
       Some (Vote_registered,
             voted_v1\<lparr>files := (\<lambda>p. None)(''voters/faces/v1.jpg'' \<mapsto> grey,
                                              ''voters/eyes/v1.jpg'' \<mapsto> grey)\<rparr>)"
    by (auto simp: vote_def has_already_voted_def get_user_def enrolled_v1_def voted_v1_def
          stranger_face_def stranger_eye_def compare_images_same_file save_vote_def mark_voted_def)
  then show ?thesis
    by (simp add: enrolled_v1_reached score_grey)
       (simp add: enrolled_v1_def stranger_face_def stranger_eye_def)
qed

text \<open>
  A vote request that is served alone and does not end with
  \<^verbatim>\<open>Vote registered successfully!\<close> leaves both tables as they were.
\<close>

lemma vote_failure_changes_no_table:
  assumes "vote interp uid cand cam1 cam2 s = Some (r, s')" and "r \<noteq> Vote_registered"
  shows "users s' = users s \<and> votes s' = votes s"
  using assms
  by (auto simp: vote_def save_vote_def mark_voted_def
           split: if_splits option.splits prod.splits sum.splits)

text \<open>
  C6. A vote request for an enrolled voter in front of somebody else, with ESC pressed
  during the capture of the eye. The answer is \<^verbatim>\<open>Verification failed!\<close>, both tables are
  as before, and the enrolled picture of the face is replaced by the picture captured in
  the failed attempt.
\<close>

theorem rejected_vote_replaces_template:
  "register ''v1'' [face_shot] [eye_shot] (create_db (\<lambda>p. None)) = Some (Registered, enrolled_v1)
   \<and> map_option face_path (get_user enrolled_v1 ''v1'') = Some (Some ''voters/faces/v1.jpg'')
   \<and> files enrolled_v1 ''voters/faces/v1.jpg'' = Some half_dark
   \<and> vote (\<lambda>img. img) ''v1'' ''A'' [stranger_face] [escape] enrolled_v1 =
       Some (Verification_failed,
             enrolled_v1\<lparr>files := (files enrolled_v1)(''voters/faces/v1.jpg'' \<mapsto> grey)\<rparr>)
   \<and> grey \<noteq> half_dark"
proof -
  have "vote (\<lambda>img. img) ''v1'' ''A'' [stranger_face] [escape] enrolled_v1 =
       Some (Verification_failed,
             enrolled_v1\<lparr>files := (files enrolled_v1)(''voters/faces/v1.jpg'' \<mapsto> grey)\<rparr>)"
    by (simp add: vote_def has_already_voted_def get_user_def enrolled_v1_def
          stranger_face_def escape_def)
  then show ?thesis
    by (simp add: enrolled_v1_reached grey_differs)
       (simp add: enrolled_v1_def get_user_def)
qed

text \<open>
  C7. A second registration under the identifier of an enrolled voter, in front of
  somebody else. The answer is \<^verbatim>\<open>User already exists!\<close> and the record keeps its two
  paths, but the pictures at these paths, the templates, are replaced by the pictures
  captured for the refused registration. The refused \<^verbatim>\<open>add_user\<close> also leaves its
  connection open: until it is collected a third registration ends with an exception, not
  with \<^verbatim>\<open>User already exists!\<close>.
\<close>

theorem refused_register_replaces_template:
  "register ''v1'' [face_shot] [eye_shot] (create_db (\<lambda>p. None)) = Some (Registered, enrolled_v1)
   \<and> files enrolled_v1 ''voters/faces/v1.jpg'' = Some half_dark
   \<and> files enrolled_v1 ''voters/eyes/v1.jpg'' = Some half_dark_flipped
   \<and> register ''v1'' [stranger_face] [stranger_eye] enrolled_v1 =
       Some (User_exists,
             enrolled_v1\<lparr>files := (\<lambda>p. None)(''voters/faces/v1.jpg'' \<mapsto> grey,
                                                 ''voters/eyes/v1.jpg'' \<mapsto> grey),
                         locked := True\<rparr>)
   \<and> grey \<noteq> half_dark \<and> grey \<noteq> half_dark_flipped
   \<and> map_option face_path (get_user enrolled_v1 ''v1'') = Some (Some ''voters/faces/v1.jpg'')
   \<and> map_option eye_path (get_user enrolled_v1 ''v1'') = Some (Some ''voters/eyes/v1.jpg'')
   \<and> map_option fst
        (serve (\<lambda>img. img)
           [Request (Register ''v1'' [face_shot] [eye_shot]),
            Request (Register ''v1'' [stranger_face] [stranger_eye]),
            Request (Register ''v1'' [stranger_face] [stranger_eye])]
           (create_db (\<lambda>p. None))) =
       Some [Registered, User_exists, Server_error]
   \<and> map_option fst
        (serve (\<lambda>img. img)
           [Request (Register ''v1'' [face_shot] [eye_shot]),
            Request (Register ''v1'' [stranger_face] [stranger_eye]),
            Collect,
            Request (Register ''v1'' [stranger_face] [stranger_eye])]
           (create_db (\<lambda>p. None))) =
       Some [Registered, User_exists, User_exists]"
proof -
  have r: "register ''v1'' [stranger_face] [stranger_eye] enrolled_v1 =
       Some (User_exists,
             enrolled_v1\<lparr>files := (\<lambda>p. None)(''voters/faces/v1.jpg'' \<mapsto> grey,
                                                 ''voters/eyes/v1.jpg'' \<mapsto> grey),
                         locked := True\<rparr>)"
    by (auto simp: register_def add_user_def enrolled_v1_def stranger_face_def stranger_eye_def)
  have "register ''v1'' [stranger_face] [stranger_eye]
          (enrolled_v1\<lparr>files := (\<lambda>p. None)(''voters/faces/v1.jpg'' \<mapsto> grey,
                                                 ''voters/eyes/v1.jpg'' \<mapsto> grey),
                         locked := True\<rparr>) =
       Some (Server_error,
             enrolled_v1\<lparr>files := (\<lambda>p. None)(''voters/faces/v1.jpg'' \<mapsto> grey,
                                                 ''voters/eyes/v1.jpg'' \<mapsto> grey),
                         locked := True\<rparr>)"
    by (auto simp: register_def add_user_def enrolled_v1_def stranger_face_def stranger_eye_def)
  moreover have "register ''v1'' [stranger_face] [stranger_eye]
          (collect (enrolled_v1\<lparr>files := (\<lambda>p. None)(''voters/faces/v1.jpg'' \<mapsto> grey,
                                                 ''voters/eyes/v1.jpg'' \<mapsto> grey),
                         locked := True\<rparr>)) =
       Some (User_exists,
             enrolled_v1\<lparr>files := (\<lambda>p. None)(''voters/faces/v1.jpg'' \<mapsto> grey,
                                                 ''voters/eyes/v1.jpg'' \<mapsto> grey),
                         locked := True\<rparr>)"
    by (auto simp: register_def add_user_def collect_def enrolled_v1_def stranger_face_def stranger_eye_def)
  ultimately show ?thesis
    using r by (simp add: enrolled_v1_reached grey_differs)
       (simp add: enrolled_v1_def get_user_def)
qed

section \<open>Unknown voters and captures without a picture\<close>

text \<open>
  C8, as stated, fails in its last part: the absence of the record is not reported at the
  start of the attempt. Both captures run first (their pictures are on disk when the answer
  comes), and while a capture does not return (here the camera shows no eye and ESC is not
  pressed) there is no answer at all.
\<close>

theorem unknown_voter_after_capture:
  "vote (\<lambda>img. img) ''ghost'' ''A'' [face_shot] [eye_shot] (create_db (\<lambda>p. None)) =
     Some (User_not_found,
           \<lparr>users = [], votes = [],
            files = (\<lambda>p. None)(''voters/faces/ghost.jpg'' \<mapsto> half_dark,
                                 ''voters/eyes/ghost.jpg'' \<mapsto> half_dark_flipped),
            locked = False\<rparr>)
   \<and> vote (\<lambda>img. img) ''ghost'' ''A'' [face_shot] [face_shot] (create_db (\<lambda>p. None)) = None"
  by (simp add: vote_def has_already_voted_def get_user_def create_db_def face_shot_def eye_shot_def)

text \<open>
  C8, amended. For an identifier without a record the attempt answers
  \<^verbatim>\<open>User not found!\<close> whatever the camera delivers, once both captures have returned;
  the check is made after the two captures, and the tables are unchanged.
\<close>

theorem unknown_voter_not_found:
  assumes "get_user s uid = None"
  shows "vote interp uid cand cam1 cam2 s =
     (case capture_image uid ''face'' cam1 (files s) of
        None \<Rightarrow> None
      | Some (new_face, fs1) \<Rightarrow>
          (case capture_image uid ''eye'' cam2 fs1 of
             None \<Rightarrow> None
           | Some (new_eye, fs2) \<Rightarrow> Some (User_not_found, s\<lparr>files := fs2\<rparr>)))"
  using assms by (simp add: vote_def has_already_voted_def split: option.splits prod.splits)

theorem unknown_voter_not_found_witness:
  "get_user (create_db (\<lambda>p. None)) ''ghost'' = None
   \<and> vote (\<lambda>img. img) ''ghost'' ''A'' [escape] [face_shot, eye_shot] (create_db (\<lambda>p. None)) =
       Some (User_not_found,
             (create_db (\<lambda>p. None))\<lparr>files := (\<lambda>p. None)(''voters/eyes/ghost.jpg'' \<mapsto> half_dark_flipped)\<rparr>)"
proof -
  have g: "get_user (create_db (\<lambda>p. None)) ''ghost'' = None"
    by (simp add: get_user_def create_db_def)
  from unknown_voter_not_found [OF g, of "\<lambda>img. img" "''A''" "[escape]" "[face_shot, eye_shot]"] g
  show ?thesis
    by (simp add: create_db_def escape_def face_shot_def eye_shot_def)
qed

text \<open>
  C9, as stated, fails for an identifier without a record: both captures return no
  picture and the outcome is \<^verbatim>\<open>User not found!\<close>, not a rejection.
\<close>

theorem capture_failure_unknown_voter:
  "capture_image ''ghost'' ''face'' [escape] (\<lambda>p. None) = Some (None, \<lambda>p. None)
   \<and> vote (\<lambda>img. img) ''ghost'' ''A'' [escape] [escape] (create_db (\<lambda>p. None)) =
     Some (User_not_found, create_db (\<lambda>p. None))"
  by (simp add: vote_def has_already_voted_def get_user_def create_db_def escape_def)

text \<open>
  C9, amended. When a capture of an attempt returns no picture, the attempt is never
  accepted: for an enrolled voter the outcome is \<^verbatim>\<open>Verification failed!\<close>, for an
  identifier without a record it is \<^verbatim>\<open>User not found!\<close>, and the tables are unchanged.
\<close>

theorem capture_failure_rejected:
  assumes "\<not> has_already_voted s uid"
    and "capture_image uid ''face'' cam1 (files s) = Some (new_face, fs1)"
    and "capture_image uid ''eye'' cam2 fs1 = Some (new_eye, fs2)"
    and "new_face = None \<or> new_eye = None"
  shows "vote interp uid cand cam1 cam2 s =
     Some (if get_user s uid = None then User_not_found else Verification_failed,
           s\<lparr>files := fs2\<rparr>)"
  using assms by (auto simp: vote_def split: option.splits)

theorem capture_failure_rejected_witness:
  "\<not> has_already_voted enrolled_v1 ''v1''
   \<and> capture_image ''v1'' ''face'' [face_shot] (files enrolled_v1) = Some (Some ''voters/faces/v1.jpg'', files enrolled_v1)
   \<and> capture_image ''v1'' ''eye'' [escape] (files enrolled_v1) = Some (None, files enrolled_v1)
   \<and> vote (\<lambda>img. img) ''v1'' ''A'' [face_shot] [escape] enrolled_v1 = Some (Verification_failed, enrolled_v1)"
proof -
  have a: "\<not> has_already_voted enrolled_v1 ''v1''"
    by (simp add: has_already_voted_def get_user_def enrolled_v1_def)
  have b: "capture_image ''v1'' ''face'' [face_shot] (files enrolled_v1) = Some (Some ''voters/faces/v1.jpg'', files enrolled_v1)"
    by (auto simp: face_shot_def enrolled_v1_def)
  have c: "capture_image ''v1'' ''eye'' [escape] (files enrolled_v1) = Some (None, files enrolled_v1)"
    by (simp add: escape_def)
  from capture_failure_rejected [OF a b c, of "\<lambda>img. img" "''A''"] a b c show ?thesis
    by (simp add: get_user_def enrolled_v1_def)
qed

section \<open>One ballot per voter\<close>

text \<open>
  C5, as stated, fails: the table \<^verbatim>\<open>votes\<close> has no uniqueness constraint and
  \<^verbatim>\<open>save_vote\<close> has no check, so a second call for the same voter inserts a second row.
\<close>

theorem save_vote_twice:
  "(case save_vote (create_db (\<lambda>p. None)) ''v1'' ''A'' of
      Inl e \<Rightarrow> None
    | Inr s1 \<Rightarrow> (case save_vote s1 ''v1'' ''B'' of
                   Inl e \<Rightarrow> None
                 | Inr s2 \<Rightarrow> Some (ballots s2 ''v1''))) =
     Some [\<lparr>vote_id = 1, voter_id = ''v1'', candidate = ''A''\<rparr>,
           \<lparr>vote_id = 2, voter_id = ''v1'', candidate = ''B''\<rparr>]"
  by (simp add: save_vote_def create_db_def ballots_def)

lemma has_already_voted_mark_voted:
  "mark_voted s u = Inr s' \<Longrightarrow>
   has_already_voted s' uid \<longleftrightarrow> has_already_voted s uid \<or> (uid = u \<and> get_user s uid \<noteq> None)"
  by (auto simp: has_already_voted_def get_user_mark_voted split: option.splits
           dest: get_user_Some_user_id)

lemma has_already_voted_save_vote:
  "save_vote s u c = Inr s' \<Longrightarrow> has_already_voted s' uid = has_already_voted s uid"
  by (simp add: has_already_voted_def get_user_save_vote)

lemma has_already_voted_add_user:
  "add_user s u f e = Inr (b, s') \<Longrightarrow> has_already_voted s uid \<Longrightarrow> has_already_voted s' uid"
  by (auto simp: has_already_voted_def get_user_add_user_keeps split: option.splits)

lemma votes_mark_voted: "mark_voted s u = Inr s' \<Longrightarrow> votes s' = votes s"
  by (auto simp: mark_voted_def split: if_splits)

lemma votes_add_user: "add_user s u f e = Inr (b, s') \<Longrightarrow> votes s' = votes s"
  by (auto simp: add_user_def split: if_splits)

lemma votes_save_vote:
  "save_vote s u c = Inr s' \<Longrightarrow>
   votes s' = votes s @ [\<lparr>vote_id = Suc (length (votes s)), voter_id = u, candidate = c\<rparr>]"
  by (auto simp: save_vote_def split: if_splits)

lemma consistent_files [simp]: "consistent (s\<lparr>files := fs\<rparr>) = consistent s"
  by (simp add: consistent_def)

lemma consistent_locked [simp]: "consistent (s\<lparr>locked := b\<rparr>) = consistent s"
  by (simp add: consistent_def)

lemma consistent_commit:
  assumes "consistent s" and "\<not> has_already_voted s uid" and "get_user s uid = Some user"
    and sv: "save_vote s uid cand = Inr s1" and mv: "mark_voted s1 uid = Inr s2"
  shows "consistent s2"
proof -
  from assms(1,2) have new: "uid \<notin> voter_id ` set (votes s)"
    by (auto simp: consistent_def)
  have v: "votes s2 = votes s @ [\<lparr>vote_id = Suc (length (votes s)), voter_id = uid, candidate = cand\<rparr>]"
    by (simp add: votes_mark_voted [OF mv] votes_save_vote [OF sv])
  have h: "has_already_voted s2 u \<longleftrightarrow> has_already_voted s u \<or> u = uid" for u
    using assms(3)
    by (auto simp: has_already_voted_mark_voted [OF mv] has_already_voted_save_vote [OF sv]
          get_user_save_vote [OF sv])
  from new assms(1) have "distinct (map voter_id (votes s2))"
    by (simp add: consistent_def v)
  moreover have "\<forall>w \<in> set (votes s2). has_already_voted s2 (voter_id w)"
    using assms(1) by (auto simp: consistent_def v h)
  ultimately show ?thesis by (simp add: consistent_def)
qed

lemma consistent_vote:
  assumes "vote interp uid cand cam1 cam2 s = Some (r, s')" and "consistent s"
  shows "consistent s'"
proof (cases "r = Vote_registered")
  case False
  with assms show ?thesis
    by (auto simp: vote_def save_vote_def mark_voted_def
             split: if_splits option.splits prod.splits sum.splits)
next
  case True
  with assms(1) obtain fs2 user s1 where
    "\<not> has_already_voted s uid" "get_user s uid = Some user"
    "save_vote (s\<lparr>files := fs2\<rparr>) uid cand = Inr s1" "mark_voted s1 uid = Inr s'"
    by (auto simp: vote_def split: if_splits option.splits prod.splits sum.splits)
  with assms(2) consistent_commit [of "s\<lparr>files := fs2\<rparr>" uid user cand s1 s'] show ?thesis
    by simp
qed

lemma consistent_add_user:
  assumes "add_user s u f e = Inr (b, s')" and "consistent s"
  shows "consistent s'"
  using assms(2) has_already_voted_add_user [OF assms(1)]
  by (simp add: consistent_def votes_add_user [OF assms(1)])

lemma consistent_register:
  assumes "register uid cam1 cam2 s = Some (r, s')" and "consistent s"
  shows "consistent s'"
  using assms
  by (auto simp: register_def consistent_add_user
           split: option.splits prod.splits sum.splits bool.splits dest: consistent_add_user)

lemma consistent_serve:
  "serve interp evs s = Some (rs, s') \<Longrightarrow> consistent s \<Longrightarrow> consistent s'"
proof (induction interp evs s arbitrary: rs rule: serve.induct)
  case (1 interp s)
  then show ?case by simp
next
  case (2 interp evs s)
  then show ?case by (simp add: collect_def)
next
  case (3 interp uid cam1 cam2 evs s)
  from "3.prems"(1) obtain r s1 rs1 where
    a: "register uid cam1 cam2 s = Some (r, s1)" and b: "serve interp evs s1 = Some (rs1, s')"
    by (auto split: option.splits prod.splits)
  from consistent_register [OF a "3.prems"(2)] "3.IH" [OF a refl b]
  show ?case by simp
next
  case (4 interp uid cand cam1 cam2 evs s)
  from "4.prems"(1) obtain r s1 rs1 where
    a: "vote interp uid cand cam1 cam2 s = Some (r, s1)" and b: "serve interp evs s1 = Some (rs1, s')"
    by (auto split: option.splits prod.splits)
  from consistent_vote [OF a "4.prems"(2)] "4.IH" [OF a refl b]
  show ?case by simp
qed

lemma filter_absent: "a \<notin> f ` set xs \<Longrightarrow> filter (\<lambda>v. f v = a) xs = []"
  by (induction xs) auto

lemma distinct_filter_le_1:
  "distinct (map f xs) \<Longrightarrow> length (filter (\<lambda>v. f v = a) xs) \<le> 1"
  by (induction xs) (auto simp: filter_absent)

text \<open>
  C5, amended. Uniqueness is kept by the check of \<^verbatim>\<open>has_already_voted\<close> in
  \<^verbatim>\<open>vote\<close> alone: when requests are served one after the other on a new database,
  every voter has at most one ballot at any time, and a voter with a ballot is marked as
  having voted.
\<close>

theorem sequential_one_ballot:
  assumes "serve interp reqs (create_db fs) = Some (rs, s)"
  shows "length (ballots s uid) \<le> 1 \<and> (ballots s uid \<noteq> [] \<longrightarrow> has_already_voted s uid)"
proof -
  have "consistent (create_db fs)"
    by (simp add: consistent_def create_db_def)
  with assms have c: "consistent s" by (rule consistent_serve)
  then have "length (ballots s uid) \<le> 1"
    using distinct_filter_le_1 [of voter_id "votes s" uid] by (simp add: consistent_def ballots_def)
  moreover from c have "ballots s uid \<noteq> [] \<longrightarrow> has_already_voted s uid"
    by (auto simp: consistent_def ballots_def filter_empty_conv)
  ultimately show ?thesis by simp
qed

theorem sequential_one_ballot_witness:
  "serve (\<lambda>img. img)
     [Request (Register ''v1'' [face_shot] [eye_shot]),
      Request (Vote ''v1'' ''A'' [face_shot] [eye_shot]),
      Request (Vote ''v1'' ''B'' [face_shot] [eye_shot])]
     (create_db (\<lambda>p. None)) = Some ([Registered, Vote_registered, Already_voted], voted_v1)
   \<and> length (ballots voted_v1 ''v1'') \<le> 1"
proof -
  have "vote (\<lambda>img. img) ''v1'' ''B'' [face_shot] [eye_shot] voted_v1 = Some (Already_voted, voted_v1)"
    by (simp add: vote_def has_already_voted_def get_user_def voted_v1_def)
  then have "serve (\<lambda>img. img)
     [Request (Register ''v1'' [face_shot] [eye_shot]),
      Request (Vote ''v1'' ''A'' [face_shot] [eye_shot]),
      Request (Vote ''v1'' ''B'' [face_shot] [eye_shot])]
     (create_db (\<lambda>p. None)) = Some ([Registered, Vote_registered, Already_voted], voted_v1)"
    by (simp add: enrolled_v1_reached voted_v1_reached)
  from sequential_one_ballot [OF this, of "''v1''"] this show ?thesis by simp
qed

section \<open>Requests in parallel\<close>

text \<open>A request that runs alone takes the steps of its route.\<close>

lemma vote_as_steps:
  assumes "vote interp uid cand cam1 cam2 s = Some (r, s')"
  shows "run interp [0, 0, 0, 0, 0, 0, 0, 0] ([start (Vote uid cand cam1 cam2)], s) = ([Finished r], s')"
  using assms
  by (auto simp: vote_def save_vote_def mark_voted_def
           split: if_splits option.splits prod.splits sum.splits)

lemma register_as_steps:
  assumes "register uid cam1 cam2 s = Some (r, s')"
  shows "run interp [0, 0, 0] ([start (Register uid cam1 cam2)], s) = ([Finished r], s')"
  using assms
  by (auto simp: register_def add_user_def
           split: if_splits option.splits prod.splits bool.splits sum.splits)

lemmas run_eval = race_def face_shot_def eye_shot_def create_db_def add_user_def get_user_def
  has_already_voted_def save_vote_def mark_voted_def compare_images_same_file ballots_def

text \<open>
  C1. Two vote requests for the same enrolled voter, both with samples that pass. The
  second request reads \<^verbatim>\<open>has_voted\<close> while the first is still before its writes; both
  then answer \<^verbatim>\<open>Vote registered successfully!\<close> and two ballots of \<open>v1\<close> are stored.
\<close>

theorem double_vote:
  "run (\<lambda>img. img) [0, 0, 0, 1, 1, 1, 2, 1, 1, 1, 1, 1, 2, 2, 2, 2, 2, 2, 2]
       (map start race, create_db (\<lambda>p. None)) =
     ([Finished Registered, Finished Vote_registered, Finished Vote_registered], voted_twice_v1)
   \<and> ballots voted_twice_v1 ''v1'' =
       [\<lparr>vote_id = 1, voter_id = ''v1'', candidate = ''A''\<rparr>,
        \<lparr>vote_id = 2, voter_id = ''v1'', candidate = ''B''\<rparr>]"
  by (auto simp: run_eval voted_v1_def voted_twice_v1_def)

text \<open>
  C2. In the same run, when the second request reaches \<^verbatim>\<open>mark_voted\<close> the status of
  \<open>v1\<close> is Voted already, and the write goes through and is answered with success: the
  decision was taken at the read of \<^verbatim>\<open>has_already_voted\<close>, not at the write.
\<close>

theorem write_after_stale_read:
  "run (\<lambda>img. img) [0, 0, 0, 1, 1, 1, 2, 1, 1, 1, 1, 1, 2, 2, 2, 2, 2, 2]
       (map start race, create_db (\<lambda>p. None)) =
     ([Finished Registered, Finished Vote_registered, V_mark_voted ''v1''], voted_twice_v1)
   \<and> has_already_voted voted_twice_v1 ''v1''
   \<and> step (\<lambda>img. img) (V_mark_voted ''v1'') voted_twice_v1 = (Finished Vote_registered, voted_twice_v1)"
  by (auto simp: run_eval voted_v1_def voted_twice_v1_def)



section \<open>What holds in every interleaving\<close>

lemma ballots_files [simp]: "ballots (s\<lparr>files := fs\<rparr>) uid = ballots s uid"
  by (simp add: ballots_def)

lemma ballots_locked [simp]: "ballots (s\<lparr>locked := b\<rparr>) uid = ballots s uid"
  by (simp add: ballots_def)









lemma voted_has_ballot_files [simp]: "voted_has_ballot (s\<lparr>files := fs\<rparr>) = voted_has_ballot s"
  by (simp add: voted_has_ballot_def)

lemma voted_has_ballot_locked [simp]: "voted_has_ballot (s\<lparr>locked := b\<rparr>) = voted_has_ballot s"
  by (simp add: voted_has_ballot_def)















end
